theory Spec2Isabelle
  imports Main "HOL-Library.Multiset"
begin

section \<open>Rule objects and the store\<close>

text \<open>
  Rules are JavaScript objects that the filter holds by reference and mutates in place
  (their restricted domains). A reference is an address; the objects live in a store
  that every operation threads through. The fields are the ones the filter reads:
  \<^verbatim>\<open>tagName\<close> (a string, or absent), \<^verbatim>\<open>elementsFilter\<close> (the key of the
  exception index and what \<^verbatim>\<open>applyExceptionRule\<close> and \<^verbatim>\<open>rollbackExceptionRule\<close>
  compare; a string, possibly empty), \<^verbatim>\<open>whiteListRule\<close>, and the two domain sets,
  which the specification gives as sets of strings.
\<close>

type_synonym rule_ref = nat

record rule =
  tagName :: "string option"
  elementsFilter :: string
  whiteListRule :: bool
  permittedDomains :: "string set"
  restrictedDomains :: "string set"

type_synonym rule_store = "rule_ref \<Rightarrow> rule"

text \<open>JavaScript truthiness of a string-or-absent value: absent and the empty string are falsy.\<close>

fun truthy :: "string option \<Rightarrow> bool" where
  "truthy None = False"
| "truthy (Some s) = (s \<noteq> [])"

text \<open>
  Modelled from the spec: \<^verbatim>\<open>rule.getPermittedDomains()\<close> is a method of the rule
  classes, which are not among the sources. The specification: it reads the rule's
  permitted-domain set.
\<close>

definition getPermittedDomains :: "rule \<Rightarrow> string set" where
  "getPermittedDomains r = permittedDomains r"

text \<open>
  Modelled from the spec: \<^verbatim>\<open>rule.addRestrictedDomains(domains)\<close> is a method of the
  rule classes, which are not among the sources. The specification: applying an
  exception with permitted domains \<open>P\<close> to a rule restricted on \<open>S\<close> means
  \<open>S := S \<union> P\<close>.
\<close>

definition addRestrictedDomains :: "rule \<Rightarrow> string set \<Rightarrow> rule" where
  "addRestrictedDomains r ds = r\<lparr>restrictedDomains := restrictedDomains r \<union> ds\<rparr>"

text \<open>
  Modelled from the spec: \<^verbatim>\<open>rule.removeRestrictedDomains(domains)\<close> is a method of the
  rule classes, which are not among the sources. The specification: reversing means
  \<open>S := S - P\<close>.
\<close>

definition removeRestrictedDomains :: "rule \<Rightarrow> string set \<Rightarrow> rule" where
  "removeRestrictedDomains r ds = r\<lparr>restrictedDomains := restrictedDomains r - ds\<rparr>"

text \<open>
  Modelled from the spec: \<^verbatim>\<open>adguard.utils.collections.removeRule(collection, rule)\<close> is
  not among the sources. The specification says it removes the first occurrence of the
  value, compared by identity, and does nothing when the value is not found.
\<close>

fun collections_removeRule :: "rule_ref list \<Rightarrow> rule_ref \<Rightarrow> rule_ref list" where
  "collections_removeRule [] r = []"
| "collections_removeRule (x # xs) r = (if x = r then xs else x # collections_removeRule xs r)"

section \<open>MultiMap\<close>

record MultiMap =
  map_mm :: "string \<rightharpoonup> rule_ref list"
  size_mm :: int

definition MultiMap_new :: MultiMap where
  "MultiMap_new = \<lparr>map_mm = Map.empty, size_mm = 0\<rparr>"

definition put :: "MultiMap \<Rightarrow> string \<Rightarrow> rule_ref \<Rightarrow> MultiMap" where
  "put m key v =
     (case map_mm m key of
        None \<Rightarrow> m\<lparr>map_mm := (map_mm m)(key \<mapsto> [v]), size_mm := size_mm m + 1\<rparr>
      | Some vs \<Rightarrow> m\<lparr>map_mm := (map_mm m)(key \<mapsto> vs @ [v])\<rparr>)"

definition remove_mm :: "MultiMap \<Rightarrow> string \<Rightarrow> rule_ref \<Rightarrow> MultiMap" where
  "remove_mm m key v =
     (case map_mm m key of
        None \<Rightarrow> m
      | Some vs \<Rightarrow>
          (let vs' = collections_removeRule vs v in
           if length vs' = 0
           then m\<lparr>map_mm := (map_mm m)(key := None), size_mm := size_mm m - 1\<rparr>
           else m\<lparr>map_mm := (map_mm m)(key \<mapsto> vs')\<rparr>))"

definition get :: "MultiMap \<Rightarrow> string \<Rightarrow> rule_ref list option" where
  "get m key = map_mm m key"

definition clear :: "MultiMap \<Rightarrow> MultiMap" where
  "clear m = m\<lparr>map_mm := Map.empty\<rparr>"

definition isEmpty :: "MultiMap \<Rightarrow> bool" where
  "isEmpty m = (size_mm m = 0)"

section \<open>ContentFilter\<close>

text \<open>
  The filter's own fields, together with the store of the rule objects it refers to.
\<close>

record ContentFilter =
  contentRules :: "rule_ref list"
  exceptionRulesMap :: MultiMap
  dirty :: bool
  store :: rule_store

definition addRule :: "ContentFilter \<Rightarrow> rule_ref \<Rightarrow> ContentFilter" where
  "addRule s r =
     (if \<not> truthy (tagName (store s r)) then s
      else (if whiteListRule (store s r)
            then s\<lparr>exceptionRulesMap :=
                     put (exceptionRulesMap s) (elementsFilter (store s r)) r\<rparr>
            else s\<lparr>contentRules := contentRules s @ [r]\<rparr>)\<lparr>dirty := True\<rparr>)"

text \<open>The constructor: an empty filter, then \<^verbatim>\<open>addRule\<close> on each given rule in order.\<close>

definition ContentFilter_new :: "rule_store \<Rightarrow> rule_ref list option \<Rightarrow> ContentFilter" where
  "ContentFilter_new h rules =
     (let s = \<lparr>contentRules = [], exceptionRulesMap = MultiMap_new, dirty = False, store = h\<rparr>
      in case rules of None \<Rightarrow> s | Some rs \<Rightarrow> foldl addRule s rs)"

text \<open>The loop of \<^verbatim>\<open>rollbackExceptionRule\<close> over \<^verbatim>\<open>contentRules\<close>.\<close>

fun rollback_loop :: "rule_store \<Rightarrow> rule_ref \<Rightarrow> rule_ref list \<Rightarrow> rule_store" where
  "rollback_loop h e [] = h"
| "rollback_loop h e (r # rs) =
     rollback_loop
       (if elementsFilter (h r) = elementsFilter (h e)
        then h(r := removeRestrictedDomains (h r) (getPermittedDomains (h e)))
        else h) e rs"

definition rollbackExceptionRule :: "ContentFilter \<Rightarrow> rule_ref \<Rightarrow> ContentFilter" where
  "rollbackExceptionRule s e =
     (if \<not> whiteListRule (store s e) then s
      else s\<lparr>store := rollback_loop (store s) e (contentRules s)\<rparr>)"

definition removeRule :: "ContentFilter \<Rightarrow> rule_ref \<Rightarrow> ContentFilter" where
  "removeRule s r =
     (let s1 = s\<lparr>contentRules := collections_removeRule (contentRules s) r\<rparr>;
          s2 = s1\<lparr>exceptionRulesMap :=
                    remove_mm (exceptionRulesMap s1) (elementsFilter (store s1 r)) r\<rparr>;
          s3 = rollbackExceptionRule s2 r
      in s3\<lparr>dirty := True\<rparr>)"

definition applyExceptionRule :: "rule_store \<Rightarrow> rule_ref \<Rightarrow> rule_ref \<Rightarrow> rule_store" where
  "applyExceptionRule h r e =
     (if elementsFilter (h r) \<noteq> elementsFilter (h e) then h
      else h(r := addRestrictedDomains (h r) (getPermittedDomains (h e))))"

fun applyExceptionRules_loop :: "rule_store \<Rightarrow> rule_ref \<Rightarrow> rule_ref list \<Rightarrow> rule_store" where
  "applyExceptionRules_loop h r [] = h"
| "applyExceptionRules_loop h r (e # es) =
     applyExceptionRules_loop (applyExceptionRule h r e) r es"

definition applyExceptionRules :: "ContentFilter \<Rightarrow> rule_ref \<Rightarrow> ContentFilter" where
  "applyExceptionRules s r =
     (case get (exceptionRulesMap s) (elementsFilter (store s r)) of
        None \<Rightarrow> s
      | Some es \<Rightarrow> s\<lparr>store := applyExceptionRules_loop (store s) r es\<rparr>)"

fun rebuild_loop :: "ContentFilter \<Rightarrow> rule_ref list \<Rightarrow> ContentFilter" where
  "rebuild_loop s [] = s"
| "rebuild_loop s (r # rs) = rebuild_loop (applyExceptionRules s r) rs"

definition rebuild :: "ContentFilter \<Rightarrow> ContentFilter" where
  "rebuild s =
     (if \<not> dirty s then s
      else (if \<not> isEmpty (exceptionRulesMap s) then rebuild_loop s (contentRules s)
            else s)\<lparr>dirty := False\<rparr>)"

text \<open>
  \<^verbatim>\<open>rule.isPermitted(domainName)\<close> is a method of the rule classes, which are not among
  the sources: it is a parameter, applied to the rule object as the store holds it at
  the time of the call. The accumulator \<open>result\<close> starts as \<^verbatim>\<open>null\<close>.
\<close>

fun getRulesForDomain_loop ::
  "(rule \<Rightarrow> string \<Rightarrow> bool) \<Rightarrow> rule_store \<Rightarrow> string \<Rightarrow> rule_ref list \<Rightarrow>
   rule_ref list option \<Rightarrow> rule_ref list option" where
  "getRulesForDomain_loop isPermitted h d [] result = result"
| "getRulesForDomain_loop isPermitted h d (r # rs) result =
     getRulesForDomain_loop isPermitted h d rs
       (if isPermitted (h r) d
        then Some ((case result of None \<Rightarrow> [] | Some xs \<Rightarrow> xs) @ [r])
        else result)"

definition getRulesForDomain ::
  "(rule \<Rightarrow> string \<Rightarrow> bool) \<Rightarrow> string \<Rightarrow> ContentFilter \<Rightarrow>
   rule_ref list option \<times> ContentFilter" where
  "getRulesForDomain isPermitted d s =
     (let s' = (if dirty s then rebuild s else s)
      in (getRulesForDomain_loop isPermitted (store s') d (contentRules s') None, s'))"

text \<open>
  \<^verbatim>\<open>rule.getMatchedElements(doc)\<close>, the document traversal, is a parameter as well; it
  may answer with nothing (\<^verbatim>\<open>null\<close>), which the filter treats like an empty result.
\<close>

fun getMatchedElementsForRules_loop ::
  "(rule \<Rightarrow> 'doc \<Rightarrow> 'el list option) \<Rightarrow> rule_store \<Rightarrow> 'doc \<Rightarrow> rule_ref list \<Rightarrow>
   'el list option \<Rightarrow> 'el list option" where
  "getMatchedElementsForRules_loop traverse h doc [] result = result"
| "getMatchedElementsForRules_loop traverse h doc (r # rs) result =
     getMatchedElementsForRules_loop traverse h doc rs
       (case traverse (h r) doc of
          None \<Rightarrow> result
        | Some elements \<Rightarrow>
            if length elements > 0
            then Some ((case result of None \<Rightarrow> [] | Some xs \<Rightarrow> xs) @ elements)
            else result)"

definition getMatchedElementsForRules ::
  "(rule \<Rightarrow> 'doc \<Rightarrow> 'el list option) \<Rightarrow> rule_store \<Rightarrow> 'doc \<Rightarrow> rule_ref list option \<Rightarrow>
   'el list option" where
  "getMatchedElementsForRules traverse h doc rules =
     (case rules of
        None \<Rightarrow> None
      | Some rs \<Rightarrow>
          if length rs = 0 then None
          else getMatchedElementsForRules_loop traverse h doc rs None)"

definition getMatchedElements ::
  "(rule \<Rightarrow> 'doc \<Rightarrow> 'el list option) \<Rightarrow> (rule \<Rightarrow> string \<Rightarrow> bool) \<Rightarrow> 'doc \<Rightarrow> string \<Rightarrow>
   ContentFilter \<Rightarrow> 'el list option \<times> ContentFilter" where
  "getMatchedElements traverse isPermitted doc d s =
     (let s1 = (if dirty s then rebuild s else s);
          (rules, s2) = getRulesForDomain isPermitted d s1
      in case rules of
           Some rs \<Rightarrow> (getMatchedElementsForRules traverse (store s2) doc (Some rs), s2)
         | None \<Rightarrow> (None, s2))"

section \<open>Sequences of calls\<close>

text \<open>
  The public interface as a datatype of calls, and the state a filter is in after a
  constructor call followed by any sequence of them. A query leaves the state
  \<^verbatim>\<open>getRulesForDomain\<close> leaves; \<^verbatim>\<open>getMatchedElements\<close> leaves the same one.
\<close>

datatype call = AddRule rule_ref | RemoveRule rule_ref | Query string

fun perform :: "(rule \<Rightarrow> string \<Rightarrow> bool) \<Rightarrow> ContentFilter \<Rightarrow> call \<Rightarrow> ContentFilter" where
  "perform isPermitted s (AddRule r) = addRule s r"
| "perform isPermitted s (RemoveRule r) = removeRule s r"
| "perform isPermitted s (Query d) = snd (getRulesForDomain isPermitted d s)"

definition run ::
  "(rule \<Rightarrow> string \<Rightarrow> bool) \<Rightarrow> rule_store \<Rightarrow> rule_ref list option \<Rightarrow> call list \<Rightarrow>
   ContentFilter" where
  "run isPermitted h rules calls = foldl (perform isPermitted) (ContentFilter_new h rules) calls"

section \<open>The applications a rebuild performs\<close>

text \<open>
  The loops of the rebuild once more, returning not the store but the calls
  \<^verbatim>\<open>rule.addRestrictedDomains(exceptionRule.getPermittedDomains())\<close> that they make,
  as pairs (regular rule, exception rule) in the order of the calls. Each function
  follows the one it is named after: it has the same branches, passes on the same
  store and state, and lists a pair exactly where \<^verbatim>\<open>applyExceptionRule\<close> reaches the
  call.
\<close>

definition applyExceptionRule_calls ::
  "rule_store \<Rightarrow> rule_ref \<Rightarrow> rule_ref \<Rightarrow> (rule_ref \<times> rule_ref) list" where
  "applyExceptionRule_calls h r e =
     (if elementsFilter (h r) \<noteq> elementsFilter (h e) then [] else [(r, e)])"

fun applyExceptionRules_loop_calls ::
  "rule_store \<Rightarrow> rule_ref \<Rightarrow> rule_ref list \<Rightarrow> (rule_ref \<times> rule_ref) list" where
  "applyExceptionRules_loop_calls h r [] = []"
| "applyExceptionRules_loop_calls h r (e # es) =
     applyExceptionRule_calls h r e @
     applyExceptionRules_loop_calls (applyExceptionRule h r e) r es"

definition applyExceptionRules_calls ::
  "ContentFilter \<Rightarrow> rule_ref \<Rightarrow> (rule_ref \<times> rule_ref) list" where
  "applyExceptionRules_calls s r =
     (case get (exceptionRulesMap s) (elementsFilter (store s r)) of
        None \<Rightarrow> []
      | Some es \<Rightarrow> applyExceptionRules_loop_calls (store s) r es)"

fun rebuild_loop_calls :: "ContentFilter \<Rightarrow> rule_ref list \<Rightarrow> (rule_ref \<times> rule_ref) list" where
  "rebuild_loop_calls s [] = []"
| "rebuild_loop_calls s (r # rs) =
     applyExceptionRules_calls s r @ rebuild_loop_calls (applyExceptionRules s r) rs"

definition rebuild_calls :: "ContentFilter \<Rightarrow> (rule_ref \<times> rule_ref) list" where
  "rebuild_calls s =
     (if \<not> dirty s then []
      else if \<not> isEmpty (exceptionRulesMap s) then rebuild_loop_calls s (contentRules s)
      else [])"

text \<open>
  What one call of the interface applies: \<^verbatim>\<open>addRule\<close> and \<^verbatim>\<open>removeRule\<close> never reach
  \<^verbatim>\<open>applyExceptionRule\<close>; a query rebuilds when the filter is dirty.
  (\<^verbatim>\<open>getMatchedElements\<close> does so before it calls \<^verbatim>\<open>getRulesForDomain\<close>, which then
  finds the filter clean, so both queries apply the same.) The applications of a whole
  sequence of calls after the constructor, which only calls \<^verbatim>\<open>addRule\<close>, are those of
  its calls, in order.
\<close>

fun perform_calls :: "ContentFilter \<Rightarrow> call \<Rightarrow> (rule_ref \<times> rule_ref) list" where
  "perform_calls s (AddRule r) = []"
| "perform_calls s (RemoveRule r) = []"
| "perform_calls s (Query d) = (if dirty s then rebuild_calls s else [])"

fun run_calls_from ::
  "(rule \<Rightarrow> string \<Rightarrow> bool) \<Rightarrow> ContentFilter \<Rightarrow> call list \<Rightarrow> (rule_ref \<times> rule_ref) list" where
  "run_calls_from isPermitted s [] = []"
| "run_calls_from isPermitted s (c # cs) =
     perform_calls s c @ run_calls_from isPermitted (perform isPermitted s c) cs"

definition applications ::
  "(rule \<Rightarrow> string \<Rightarrow> bool) \<Rightarrow> rule_store \<Rightarrow> rule_ref list option \<Rightarrow> call list \<Rightarrow>
   (rule_ref \<times> rule_ref) list" where
  "applications isPermitted h rules calls =
     run_calls_from isPermitted (ContentFilter_new h rules) calls"

section \<open>Notions the properties are stated with\<close>

text \<open>The part of a rule object the filter never writes: everything but the restricted domains.\<close>

definition static :: "rule \<Rightarrow> rule" where
  "static r = r\<lparr>restrictedDomains := {}\<rparr>"

text \<open>The exception rules the index holds under a key (none when the key is absent).\<close>

definition exceptionsFor :: "MultiMap \<Rightarrow> string \<Rightarrow> rule_ref list" where
  "exceptionsFor m key = (case get m key of None \<Rightarrow> [] | Some es \<Rightarrow> es)"

text \<open>
  The domains that the exception rules now in the index permit, for the regular rule
  \<open>r\<close>: the union of the permitted-domain sets of the exceptions whose
  \<^verbatim>\<open>elementsFilter\<close> is \<open>r\<close>'s.
\<close>

definition exceptionDomains :: "ContentFilter \<Rightarrow> rule_ref \<Rightarrow> string set" where
  "exceptionDomains s r =
     (\<Union>e \<in> set (exceptionsFor (exceptionRulesMap s) (elementsFilter (store s r))).
        if elementsFilter (store s e) = elementsFilter (store s r)
        then permittedDomains (store s e) else {})"

text \<open>
  Consistency of the index with itself and with the rules: \<^verbatim>\<open>size\<close> counts the keys, no
  key holds an empty sequence, every rule under a key is an exception rule with that
  \<^verbatim>\<open>elementsFilter\<close>, and no exception rule is among \<^verbatim>\<open>contentRules\<close>.
\<close>

definition index_ok :: "ContentFilter \<Rightarrow> bool" where
  "index_ok s \<longleftrightarrow>
     finite (dom (map_mm (exceptionRulesMap s))) \<and>
     size_mm (exceptionRulesMap s) = int (card (dom (map_mm (exceptionRulesMap s)))) \<and>
     (\<forall>k vs. map_mm (exceptionRulesMap s) k = Some vs \<longrightarrow>
        vs \<noteq> [] \<and>
        (\<forall>e \<in> set vs. elementsFilter (store s e) = k \<and> whiteListRule (store s e) \<and>
           truthy (tagName (store s e)))) \<and>
     (\<forall>r \<in> set (contentRules s). \<not> whiteListRule (store s r) \<and> truthy (tagName (store s r)))"

text \<open>
  The rules that are in the rule set after a sequence of calls, counted with
  multiplicity: a rule enters when \<^verbatim>\<open>addRule\<close> accepts it and one occurrence leaves
  with each \<^verbatim>\<open>removeRule\<close>.
\<close>

fun track :: "rule_store \<Rightarrow> rule_ref multiset \<Rightarrow> call \<Rightarrow> rule_ref multiset" where
  "track h g (AddRule r) = (if truthy (tagName (h r)) then add_mset r g else g)"
| "track h g (RemoveRule r) = g - {#r#}"
| "track h g (Query d) = g"

definition inRuleSet :: "rule_store \<Rightarrow> rule_ref list option \<Rightarrow> call list \<Rightarrow> rule_ref multiset" where
  "inRuleSet h rules calls =
     foldl (track h) {#} (map AddRule (case rules of None \<Rightarrow> [] | Some rs \<Rightarrow> rs) @ calls)"

section \<open>Example rules\<close>

text \<open>
  A store with a regular rule (address 0) that is restricted on \<^verbatim>\<open>a.com\<close> by itself,
  an exception rule (address 1) with the same \<^verbatim>\<open>elementsFilter\<close> that permits
  \<^verbatim>\<open>a.com\<close>, a second regular rule (address 2) with the same filter, a rule without
  a tag name (address 3), and a regular rule with a tag name and an empty filter (4).
\<close>

definition regular_rule :: "string \<Rightarrow> string set \<Rightarrow> rule" where
  "regular_rule key restricted =
     \<lparr>tagName = Some ''script'', elementsFilter = key, whiteListRule = False,
      permittedDomains = {}, restrictedDomains = restricted\<rparr>"

definition exception_rule :: "string \<Rightarrow> string set \<Rightarrow> rule" where
  "exception_rule key permitted =
     \<lparr>tagName = Some ''script'', elementsFilter = key, whiteListRule = True,
      permittedDomains = permitted, restrictedDomains = {}\<rparr>"

definition example_store :: rule_store where
  "example_store =
     (\<lambda>_. regular_rule ''[other]'' {})
       (0 := regular_rule ''[k]'' {''a.com''},
        1 := exception_rule ''[k]'' {''a.com''},
        2 := regular_rule ''[k]'' {},
        3 := (regular_rule ''[k]'' {})\<lparr>tagName := None\<rparr>,
        4 := regular_rule [] {})"

text \<open>
  A second store: a regular rule restricted nowhere (address 2) and two exception rules
  with its \<^verbatim>\<open>elementsFilter\<close>, one permitting \<^verbatim>\<open>a.com\<close> (1), one \<^verbatim>\<open>b.com\<close> (6).
\<close>

definition pending_store :: rule_store where
  "pending_store =
     (\<lambda>_. regular_rule ''[other]'' {})
       (1 := exception_rule ''[k]'' {''a.com''},
        2 := regular_rule ''[k]'' {},
        6 := exception_rule ''[k]'' {''b.com''})"

text \<open>A permission decision for the examples: a rule acts wherever it is not restricted.\<close>

definition unrestricted :: "rule \<Rightarrow> string \<Rightarrow> bool" where
  "unrestricted r d \<longleftrightarrow> d \<notin> restrictedDomains r"

text \<open>A traversal for the examples: a document lists, per \<^verbatim>\<open>elementsFilter\<close>, its elements.\<close>

definition lookup_elements :: "rule \<Rightarrow> (string \<rightharpoonup> nat list) \<Rightarrow> nat list option" where
  "lookup_elements r doc = doc (elementsFilter r)"

definition example_doc :: "string \<rightharpoonup> nat list" where
  "example_doc = [''[k]'' \<mapsto> [7, 8], [] \<mapsto> [9]]"

section \<open>Auxiliary facts\<close>

lemma collections_removeRule_remove1: "collections_removeRule xs r = remove1 r xs"
  by (induction xs) auto

lemma static_sel [simp]:
  "tagName (static r) = tagName r" "elementsFilter (static r) = elementsFilter r"
  "whiteListRule (static r) = whiteListRule r" "permittedDomains (static r) = permittedDomains r"
  by (simp_all add: static_def)

lemma static_eqD:
  assumes "static a = static b"
  shows "tagName a = tagName b" and "elementsFilter a = elementsFilter b"
    and "whiteListRule a = whiteListRule b" and "permittedDomains a = permittedDomains b"
proof -
  show "tagName a = tagName b" using arg_cong [OF assms, of tagName] by simp
  show "elementsFilter a = elementsFilter b" using arg_cong [OF assms, of elementsFilter] by simp
  show "whiteListRule a = whiteListRule b" using arg_cong [OF assms, of whiteListRule] by simp
  show "permittedDomains a = permittedDomains b"
    using arg_cong [OF assms, of permittedDomains] by simp
qed

lemma static_add [simp]: "static (addRestrictedDomains r ds) = static r"
  by (simp add: static_def addRestrictedDomains_def)

lemma static_remove [simp]: "static (removeRestrictedDomains r ds) = static r"
  by (simp add: static_def removeRestrictedDomains_def)

lemma restricted_add [simp]:
  "restrictedDomains (addRestrictedDomains r ds) = restrictedDomains r \<union> ds"
  by (simp add: addRestrictedDomains_def)

lemma restricted_remove [simp]:
  "restrictedDomains (removeRestrictedDomains r ds) = restrictedDomains r - ds"
  by (simp add: removeRestrictedDomains_def)

subsection \<open>applyExceptionRule\<close>

lemma applyExceptionRule_other: "x \<noteq> r \<Longrightarrow> applyExceptionRule h r e x = h x"
  by (simp add: applyExceptionRule_def)

lemma applyExceptionRule_static: "static (applyExceptionRule h r e x) = static (h x)"
  by (simp add: applyExceptionRule_def)

lemma applyExceptionRule_restricted:
  "restrictedDomains (applyExceptionRule h r e r) =
     restrictedDomains (h r) \<union>
       (if elementsFilter (h e) = elementsFilter (h r) then permittedDomains (h e) else {})"
  by (simp add: applyExceptionRule_def getPermittedDomains_def)

lemma applyExceptionRules_loop_other:
  "x \<noteq> r \<Longrightarrow> applyExceptionRules_loop h r es x = h x"
  by (induction es arbitrary: h) (simp_all add: applyExceptionRule_other)

lemma applyExceptionRules_loop_static:
  "static (applyExceptionRules_loop h r es x) = static (h x)"
  by (induction es arbitrary: h) (simp_all add: applyExceptionRule_static)

lemma applyExceptionRules_loop_restricted:
  "restrictedDomains (applyExceptionRules_loop h r es r) =
     restrictedDomains (h r) \<union>
       (\<Union>e \<in> set es. if elementsFilter (h e) = elementsFilter (h r)
                        then permittedDomains (h e) else {})"
proof (induction es arbitrary: h)
  case Nil
  show ?case by simp
next
  case (Cons e es)
  let ?h1 = "applyExceptionRule h r e"
  have ef: "\<And>x. elementsFilter (?h1 x) = elementsFilter (h x)"
    by (rule static_eqD(2) [OF applyExceptionRule_static])
  have pd: "\<And>x. permittedDomains (?h1 x) = permittedDomains (h x)"
    by (rule static_eqD(4) [OF applyExceptionRule_static])
  have "restrictedDomains (applyExceptionRules_loop h r (e # es) r) =
        restrictedDomains (?h1 r) \<union>
          (\<Union>e \<in> set es. if elementsFilter (?h1 e) = elementsFilter (?h1 r)
                           then permittedDomains (?h1 e) else {})"
    using Cons.IH [of ?h1] by simp
  also have "\<dots> = restrictedDomains (h r) \<union>
       (if elementsFilter (h e) = elementsFilter (h r) then permittedDomains (h e) else {}) \<union>
          (\<Union>e \<in> set es. if elementsFilter (h e) = elementsFilter (h r)
                           then permittedDomains (h e) else {})"
    by (simp only: ef pd applyExceptionRule_restricted)
  also have "\<dots> = restrictedDomains (h r) \<union>
       (\<Union>e \<in> set (e # es). if elementsFilter (h e) = elementsFilter (h r)
                        then permittedDomains (h e) else {})"
    by (simp add: Un_assoc)
  finally show ?case .
qed

subsection \<open>rollback\<close>

lemma rollback_step_static:
  "static ((if c then h(r := removeRestrictedDomains (h r) P) else h) x) = static (h x)"
  by simp

lemma rollback_loop_static: "static (rollback_loop h e rs x) = static (h x)"
proof (induction rs arbitrary: h)
  case Nil
  show ?case by simp
next
  case (Cons r rs)
  show ?case by (simp only: rollback_loop.simps Cons.IH rollback_step_static)
qed

lemma rollback_loop_restricted:
  "restrictedDomains (rollback_loop h e rs x) =
     (if x \<in> set rs \<and> elementsFilter (h x) = elementsFilter (h e)
      then restrictedDomains (h x) - permittedDomains (h e) else restrictedDomains (h x))"
proof (induction rs arbitrary: h)
  case Nil
  show ?case by simp
next
  case (Cons r rs)
  let ?h1 = "if elementsFilter (h r) = elementsFilter (h e)
             then h(r := removeRestrictedDomains (h r) (getPermittedDomains (h e))) else h"
  have ef: "\<And>x. elementsFilter (?h1 x) = elementsFilter (h x)"
    by (rule static_eqD(2) [OF rollback_step_static])
  have pd: "\<And>x. permittedDomains (?h1 x) = permittedDomains (h x)"
    by (rule static_eqD(4) [OF rollback_step_static])
  have rd: "restrictedDomains (?h1 x) =
      (if x = r \<and> elementsFilter (h x) = elementsFilter (h e)
       then restrictedDomains (h x) - permittedDomains (h e) else restrictedDomains (h x))"
    by (auto simp add: getPermittedDomains_def)
  have "restrictedDomains (rollback_loop h e (r # rs) x) =
        (if x \<in> set rs \<and> elementsFilter (?h1 x) = elementsFilter (?h1 e)
         then restrictedDomains (?h1 x) - permittedDomains (?h1 e) else restrictedDomains (?h1 x))"
    using Cons.IH [of ?h1] by simp
  also have "\<dots> = (if x \<in> set rs \<and> elementsFilter (h x) = elementsFilter (h e)
         then restrictedDomains (?h1 x) - permittedDomains (h e) else restrictedDomains (?h1 x))"
    by (simp only: ef pd)
  also have "\<dots> = (if x \<in> set (r # rs) \<and> elementsFilter (h x) = elementsFilter (h e)
      then restrictedDomains (h x) - permittedDomains (h e) else restrictedDomains (h x))"
    unfolding rd by auto
  finally show ?case .
qed

lemma rollback_loop_other:
  "x \<notin> set rs \<or> elementsFilter (h x) \<noteq> elementsFilter (h e) \<Longrightarrow> rollback_loop h e rs x = h x"
proof (induction rs arbitrary: h)
  case Nil
  show ?case by simp
next
  case (Cons r rs)
  let ?h1 = "if elementsFilter (h r) = elementsFilter (h e)
             then h(r := removeRestrictedDomains (h r) (getPermittedDomains (h e))) else h"
  have ef: "\<And>x. elementsFilter (?h1 x) = elementsFilter (h x)"
    by (rule static_eqD(2) [OF rollback_step_static])
  have "x \<notin> set rs \<or> elementsFilter (?h1 x) \<noteq> elementsFilter (?h1 e)"
    using Cons.prems unfolding ef by auto
  then have "rollback_loop ?h1 e rs x = ?h1 x" by (rule Cons.IH)
  moreover have "?h1 x = h x" using Cons.prems by auto
  ultimately show ?case by simp
qed

subsection \<open>rebuild\<close>

lemma exceptionDomains_cong:
  assumes "exceptionRulesMap s' = exceptionRulesMap s"
    and "\<And>x. static (store s' x) = static (store s x)"
  shows "exceptionDomains s' r = exceptionDomains s r"
proof -
  have ef: "\<And>x. elementsFilter (store s' x) = elementsFilter (store s x)"
    by (rule static_eqD(2) [OF assms(2)])
  have pd: "\<And>x. permittedDomains (store s' x) = permittedDomains (store s x)"
    by (rule static_eqD(4) [OF assms(2)])
  show ?thesis unfolding exceptionDomains_def by (simp only: ef pd assms(1))
qed

lemma applyExceptionRules_frame:
  "contentRules (applyExceptionRules s r) = contentRules s"
  "exceptionRulesMap (applyExceptionRules s r) = exceptionRulesMap s"
  "dirty (applyExceptionRules s r) = dirty s"
  by (simp_all add: applyExceptionRules_def split: option.split)

lemma applyExceptionRules_static:
  "static (store (applyExceptionRules s r) x) = static (store s x)"
  by (simp add: applyExceptionRules_def applyExceptionRules_loop_static split: option.split)

lemma applyExceptionRules_other:
  "x \<noteq> r \<Longrightarrow> store (applyExceptionRules s r) x = store s x"
  by (simp add: applyExceptionRules_def applyExceptionRules_loop_other split: option.split)

lemma applyExceptionRules_restricted:
  "restrictedDomains (store (applyExceptionRules s r) r) =
     restrictedDomains (store s r) \<union> exceptionDomains s r"
  by (simp add: applyExceptionRules_def applyExceptionRules_loop_restricted
      exceptionDomains_def exceptionsFor_def split: option.split)

lemma rebuild_loop_frame:
  "contentRules (rebuild_loop s rs) = contentRules s"
  "exceptionRulesMap (rebuild_loop s rs) = exceptionRulesMap s"
  "dirty (rebuild_loop s rs) = dirty s"
  by (induction rs arbitrary: s) (simp_all add: applyExceptionRules_frame)

lemma rebuild_loop_static: "static (store (rebuild_loop s rs) x) = static (store s x)"
  by (induction rs arbitrary: s) (simp_all add: applyExceptionRules_static)

lemma rebuild_loop_other: "x \<notin> set rs \<Longrightarrow> store (rebuild_loop s rs) x = store s x"
  by (induction rs arbitrary: s) (simp_all add: applyExceptionRules_other)

lemma rebuild_loop_restricted:
  "restrictedDomains (store (rebuild_loop s rs) x) =
     (if x \<in> set rs then restrictedDomains (store s x) \<union> exceptionDomains s x
      else restrictedDomains (store s x))"
proof (induction rs arbitrary: s)
  case Nil
  show ?case by simp
next
  case (Cons r rs)
  let ?s1 = "applyExceptionRules s r"
  have ed: "exceptionDomains ?s1 x = exceptionDomains s x"
    by (rule exceptionDomains_cong) (simp_all add: applyExceptionRules_frame applyExceptionRules_static)
  have rd: "restrictedDomains (store ?s1 x) =
      (if x = r then restrictedDomains (store s x) \<union> exceptionDomains s x
       else restrictedDomains (store s x))"
    by (simp add: applyExceptionRules_restricted applyExceptionRules_other)
  have "restrictedDomains (store (rebuild_loop s (r # rs)) x) =
     (if x \<in> set rs then restrictedDomains (store ?s1 x) \<union> exceptionDomains ?s1 x
      else restrictedDomains (store ?s1 x))"
    using Cons.IH [of ?s1] by simp
  also have "\<dots> = (if x \<in> set (r # rs) then restrictedDomains (store s x) \<union> exceptionDomains s x
      else restrictedDomains (store s x))"
    unfolding ed rd by auto
  finally show ?case .
qed

lemma rebuild_frame:
  "contentRules (rebuild s) = contentRules s"
  "exceptionRulesMap (rebuild s) = exceptionRulesMap s"
  by (simp_all add: rebuild_def rebuild_loop_frame)

lemma rebuild_dirty: "dirty (rebuild s) = False"
  by (simp add: rebuild_def)

lemma rebuild_clean: "\<not> dirty s \<Longrightarrow> rebuild s = s"
  by (simp add: rebuild_def)

lemma rebuild_static: "static (store (rebuild s) x) = static (store s x)"
  by (simp add: rebuild_def rebuild_loop_static)

lemma rebuild_other: "x \<notin> set (contentRules s) \<Longrightarrow> store (rebuild s) x = store s x"
  by (simp add: rebuild_def rebuild_loop_other)

lemma rebuild_restricted:
  "dirty s \<Longrightarrow> \<not> isEmpty (exceptionRulesMap s) \<Longrightarrow>
   restrictedDomains (store (rebuild s) x) =
     (if x \<in> set (contentRules s) then restrictedDomains (store s x) \<union> exceptionDomains s x
      else restrictedDomains (store s x))"
  by (simp add: rebuild_def rebuild_loop_restricted)

lemma rebuild_empty: "isEmpty (exceptionRulesMap s) \<Longrightarrow> store (rebuild s) = store s"
  by (simp add: rebuild_def)

subsection \<open>queries\<close>

lemma getRulesForDomain_loop_filter:
  "getRulesForDomain_loop isP h d rs result =
     (if filter (\<lambda>r. isP (h r) d) rs = [] then result
      else Some ((case result of None \<Rightarrow> [] | Some xs \<Rightarrow> xs) @ filter (\<lambda>r. isP (h r) d) rs))"
  by (induction rs arbitrary: result) simp_all

lemma getRulesForDomain_state: "snd (getRulesForDomain isP d s) = rebuild s"
  by (simp add: getRulesForDomain_def Let_def rebuild_clean)

lemma getRulesForDomain_rebuilt:
  "getRulesForDomain isP d (rebuild s) = getRulesForDomain isP d s"
  by (simp add: getRulesForDomain_def Let_def rebuild_clean rebuild_dirty)

lemma getMatchedElementsForRules_loop_concat:
  "getMatchedElementsForRules_loop tr h doc rs result =
     (if concat (map (\<lambda>r. case tr (h r) doc of None \<Rightarrow> [] | Some els \<Rightarrow> els) rs) = [] then result
      else Some ((case result of None \<Rightarrow> [] | Some xs \<Rightarrow> xs) @
                 concat (map (\<lambda>r. case tr (h r) doc of None \<Rightarrow> [] | Some els \<Rightarrow> els) rs)))"
  by (induction rs arbitrary: result) (simp_all split: option.split)

lemma concat_filter_nonempty: "concat (filter (\<lambda>xs. xs \<noteq> []) xss) = concat xss"
  by (induction xss) simp_all

lemma getMatchedElements_unfold:
  "getMatchedElements tr isP doc d s =
     (case getRulesForDomain isP d s of
        (None, s') \<Rightarrow> (None, s')
      | (Some rs, s') \<Rightarrow> (getMatchedElementsForRules tr (store s') doc (Some rs), s'))"
proof -
  have "(if dirty s then rebuild s else s) = rebuild s" by (simp add: rebuild_clean)
  then show ?thesis
    by (simp add: getMatchedElements_def getRulesForDomain_rebuilt split: prod.split option.split)
qed

lemma getMatchedElements_state:
  "snd (getMatchedElements tr isP doc d s) = rebuild s"
  unfolding getMatchedElements_unfold
  using getRulesForDomain_state [of isP d s]
  by (cases "getRulesForDomain isP d s") (auto split: option.split)

lemmas run_defs =
  run_def ContentFilter_new_def addRule_def removeRule_def rollbackExceptionRule_def
  getRulesForDomain_def rebuild_def isEmpty_def applyExceptionRules_def applyExceptionRule_def
  get_def put_def remove_mm_def MultiMap_new_def getPermittedDomains_def
  addRestrictedDomains_def removeRestrictedDomains_def
  example_store_def regular_rule_def exception_rule_def unrestricted_def Let_def

subsection \<open>MultiMap\<close>

lemma put_lookup:
  "map_mm (put m k v) k' = (if k' = k then Some (exceptionsFor m k @ [v]) else map_mm m k')"
  by (simp add: put_def exceptionsFor_def get_def split: option.split)

lemma put_dom: "dom (map_mm (put m k v)) = insert k (dom (map_mm m))"
  by (auto simp add: put_lookup dom_def)

lemma put_size:
  assumes "finite (dom (map_mm m))" and "size_mm m = int (card (dom (map_mm m)))"
  shows "size_mm (put m k v) = int (card (dom (map_mm (put m k v))))"
proof (cases "map_mm m k")
  case None
  then have "k \<notin> dom (map_mm m)" by (simp add: dom_def)
  with assms None show ?thesis by (simp add: put_dom) (simp add: put_def)
next
  case (Some vs)
  then have "k \<in> dom (map_mm m)" by (simp add: dom_def)
  then have "insert k (dom (map_mm m)) = dom (map_mm m)" by auto
  with assms Some show ?thesis by (simp add: put_dom) (simp add: put_def)
qed

lemma remove_mm_lookup:
  "map_mm (remove_mm m k v) k' =
     (if k' = k
      then (if remove1 v (exceptionsFor m k) = [] then None
            else Some (remove1 v (exceptionsFor m k)))
      else map_mm m k')"
  by (simp add: remove_mm_def exceptionsFor_def get_def collections_removeRule_remove1 Let_def
      split: option.split)

lemma remove_mm_absent:
  "v \<notin> set (exceptionsFor m k) \<Longrightarrow> map_mm m k \<noteq> Some [] \<Longrightarrow> remove_mm m k v = m"
proof (cases "map_mm m k")
  case None
  then show ?thesis by (simp add: remove_mm_def)
next
  case (Some vs)
  assume "v \<notin> set (exceptionsFor m k)" and "map_mm m k \<noteq> Some []"
  with Some have "collections_removeRule vs v = vs" and "vs \<noteq> []"
    by (simp_all add: exceptionsFor_def get_def collections_removeRule_remove1 remove1_idem)
  moreover have "(map_mm m)(k \<mapsto> vs) = map_mm m" using Some by (rule map_upd_triv)
  ultimately show ?thesis using Some by (simp add: remove_mm_def)
qed

lemma remove_mm_size:
  assumes "finite (dom (map_mm m))" and "size_mm m = int (card (dom (map_mm m)))"
  shows "finite (dom (map_mm (remove_mm m k v))) \<and>
         size_mm (remove_mm m k v) = int (card (dom (map_mm (remove_mm m k v))))"
proof (cases "map_mm m k")
  case None
  with assms show ?thesis by (simp add: remove_mm_def)
next
  case (Some vs)
  then have k: "k \<in> dom (map_mm m)" by (simp add: dom_def)
  show ?thesis
  proof (cases "collections_removeRule vs v = []")
    case True
    have "card (dom (map_mm m) - {k}) = card (dom (map_mm m)) - 1"
      using k assms(1) by simp
    moreover have "card (dom (map_mm m)) \<ge> 1"
      using k assms(1) by (metis One_nat_def Suc_leI card_gt_0_iff empty_iff)
    ultimately show ?thesis using assms Some True by (simp add: remove_mm_def)
  next
    case False
    have "insert k (dom (map_mm m)) = dom (map_mm m)" using k by auto
    then show ?thesis using assms Some False by (simp add: remove_mm_def)
  qed
qed

subsection \<open>What addRule and removeRule do to the fields\<close>

lemma addRule_store: "store (addRule s r) = store s"
  by (simp add: addRule_def)

lemma addRule_invalid: "\<not> truthy (tagName (store s r)) \<Longrightarrow> addRule s r = s"
  by (simp add: addRule_def)

lemma addRule_exception:
  "truthy (tagName (store s r)) \<Longrightarrow> whiteListRule (store s r) \<Longrightarrow>
   addRule s r = s\<lparr>exceptionRulesMap := put (exceptionRulesMap s) (elementsFilter (store s r)) r,
                   dirty := True\<rparr>"
  by (simp add: addRule_def)

lemma addRule_regular:
  "truthy (tagName (store s r)) \<Longrightarrow> \<not> whiteListRule (store s r) \<Longrightarrow>
   addRule s r = s\<lparr>contentRules := contentRules s @ [r], dirty := True\<rparr>"
  by (simp add: addRule_def)

lemma removeRule_fields:
  "contentRules (removeRule s r) = remove1 r (contentRules s)"
  "exceptionRulesMap (removeRule s r) =
     remove_mm (exceptionRulesMap s) (elementsFilter (store s r)) r"
  "dirty (removeRule s r) = True"
  "store (removeRule s r) =
     (if whiteListRule (store s r) then rollback_loop (store s) r (remove1 r (contentRules s))
      else store s)"
  by (simp_all add: removeRule_def rollbackExceptionRule_def Let_def
      collections_removeRule_remove1)

lemma removeRule_static: "static (store (removeRule s r) x) = static (store s x)"
  by (simp add: removeRule_fields rollback_loop_static)

lemma removeRule_restricted:
  "restrictedDomains (store (removeRule s e) x) =
     (if whiteListRule (store s e) \<and> x \<in> set (remove1 e (contentRules s)) \<and>
         elementsFilter (store s x) = elementsFilter (store s e)
      then restrictedDomains (store s x) - permittedDomains (store s e)
      else restrictedDomains (store s x))"
  by (simp add: removeRule_fields rollback_loop_restricted)

subsection \<open>Consistency of the index is kept by every call\<close>

lemma exceptionsFor_set:
  "e \<in> set (exceptionsFor m k) \<longleftrightarrow> (\<exists>vs. map_mm m k = Some vs \<and> e \<in> set vs)"
  by (cases "map_mm m k") (auto simp add: exceptionsFor_def get_def)

lemma index_okD:
  assumes "index_ok s"
  shows "finite (dom (map_mm (exceptionRulesMap s)))"
    and "size_mm (exceptionRulesMap s) = int (card (dom (map_mm (exceptionRulesMap s))))"
    and "\<And>k vs. map_mm (exceptionRulesMap s) k = Some vs \<Longrightarrow> vs \<noteq> []"
    and "\<And>k e. e \<in> set (exceptionsFor (exceptionRulesMap s) k) \<Longrightarrow>
           elementsFilter (store s e) = k \<and> whiteListRule (store s e) \<and>
           truthy (tagName (store s e))"
    and "\<And>r. r \<in> set (contentRules s) \<Longrightarrow>
           \<not> whiteListRule (store s r) \<and> truthy (tagName (store s r))"
  using assms unfolding index_ok_def exceptionsFor_set by blast+

lemma index_okI:
  assumes "finite (dom (map_mm (exceptionRulesMap s)))"
    and "size_mm (exceptionRulesMap s) = int (card (dom (map_mm (exceptionRulesMap s))))"
    and "\<And>k vs. map_mm (exceptionRulesMap s) k = Some vs \<Longrightarrow> vs \<noteq> []"
    and "\<And>k e. e \<in> set (exceptionsFor (exceptionRulesMap s) k) \<Longrightarrow>
           elementsFilter (store s e) = k \<and> whiteListRule (store s e) \<and>
           truthy (tagName (store s e))"
    and "\<And>r. r \<in> set (contentRules s) \<Longrightarrow>
           \<not> whiteListRule (store s r) \<and> truthy (tagName (store s r))"
  shows "index_ok s"
  using assms unfolding index_ok_def exceptionsFor_set by blast

lemma index_ok_cong:
  assumes ok: "index_ok s"
    and cr: "contentRules s' = contentRules s"
    and mm: "exceptionRulesMap s' = exceptionRulesMap s"
    and st: "\<And>x. static (store s' x) = static (store s x)"
  shows "index_ok s'"
proof -
  have f: "\<And>x. elementsFilter (store s' x) = elementsFilter (store s x)"
    "\<And>x. whiteListRule (store s' x) = whiteListRule (store s x)"
    "\<And>x. tagName (store s' x) = tagName (store s x)"
    using static_eqD [OF st] by simp_all
  show ?thesis using ok unfolding index_ok_def cr mm f .
qed

lemma index_ok_empty:
  "index_ok \<lparr>contentRules = [], exceptionRulesMap = MultiMap_new, dirty = False, store = h\<rparr>"
  by (simp add: index_ok_def MultiMap_new_def)

lemma exceptionsFor_put:
  "exceptionsFor (put m k v) k' =
     (if k' = k then exceptionsFor m k @ [v] else exceptionsFor m k')"
  by (simp add: exceptionsFor_def [of "put m k v"] get_def put_lookup)
     (simp add: exceptionsFor_def get_def)

lemma exceptionsFor_remove_mm:
  "exceptionsFor (remove_mm m k v) k' =
     (if k' = k then remove1 v (exceptionsFor m k) else exceptionsFor m k')"
  by (simp add: exceptionsFor_def [of "remove_mm m k v"] get_def remove_mm_lookup)
     (simp add: exceptionsFor_def get_def)

lemma index_ok_addRule:
  assumes ok: "index_ok s"
  shows "index_ok (addRule s r)"
proof (cases "truthy (tagName (store s r))")
  case False
  with ok show ?thesis by (simp add: addRule_invalid)
next
  case valid: True
  note d = index_okD [OF ok]
  show ?thesis
  proof (cases "whiteListRule (store s r)")
    case True
    let ?m = "put (exceptionRulesMap s) (elementsFilter (store s r)) r"
    have eq: "addRule s r = s\<lparr>exceptionRulesMap := ?m, dirty := True\<rparr>"
      using valid True by (rule addRule_exception)
    show ?thesis
    proof (rule index_okI)
      show "finite (dom (map_mm (exceptionRulesMap (addRule s r))))"
        using d(1) by (simp add: eq put_dom)
      show "size_mm (exceptionRulesMap (addRule s r)) =
            int (card (dom (map_mm (exceptionRulesMap (addRule s r)))))"
        using put_size [OF d(1) d(2)] by (simp add: eq)
      show "vs \<noteq> []" if "map_mm (exceptionRulesMap (addRule s r)) k = Some vs" for k vs
        using that d(3) [of k vs] by (auto simp add: eq put_lookup split: if_splits)
      show "elementsFilter (store (addRule s r) e) = k \<and> whiteListRule (store (addRule s r) e) \<and>
            truthy (tagName (store (addRule s r) e))"
        if "e \<in> set (exceptionsFor (exceptionRulesMap (addRule s r)) k)" for k e
        using that d(4) [of e k] valid True
        by (auto simp add: eq exceptionsFor_put split: if_splits)
      show "\<not> whiteListRule (store (addRule s r) x) \<and> truthy (tagName (store (addRule s r) x))"
        if "x \<in> set (contentRules (addRule s r))" for x
        using that d(5) [of x] by (simp add: eq)
    qed
  next
    case False
    have eq: "addRule s r = s\<lparr>contentRules := contentRules s @ [r], dirty := True\<rparr>"
      using valid False by (rule addRule_regular)
    show ?thesis
    proof (rule index_okI)
      show "finite (dom (map_mm (exceptionRulesMap (addRule s r))))"
        using d(1) by (simp add: eq)
      show "size_mm (exceptionRulesMap (addRule s r)) =
            int (card (dom (map_mm (exceptionRulesMap (addRule s r)))))"
        using d(2) by (simp add: eq)
      show "vs \<noteq> []" if "map_mm (exceptionRulesMap (addRule s r)) k = Some vs" for k vs
        using that d(3) [of k vs] by (simp add: eq)
      show "elementsFilter (store (addRule s r) e) = k \<and> whiteListRule (store (addRule s r) e) \<and>
            truthy (tagName (store (addRule s r) e))"
        if "e \<in> set (exceptionsFor (exceptionRulesMap (addRule s r)) k)" for k e
        using that d(4) [of e k] by (simp add: eq)
      show "\<not> whiteListRule (store (addRule s r) x) \<and> truthy (tagName (store (addRule s r) x))"
        if "x \<in> set (contentRules (addRule s r))" for x
        using that d(5) [of x] valid False by (auto simp add: eq)
    qed
  qed
qed

lemma index_ok_removeRule:
  assumes ok: "index_ok s"
  shows "index_ok (removeRule s r)"
proof -
  note d = index_okD [OF ok]
  let ?k = "elementsFilter (store s r)"
  let ?s0 = "s\<lparr>contentRules := remove1 r (contentRules s),
               exceptionRulesMap := remove_mm (exceptionRulesMap s) ?k r\<rparr>"
  have "index_ok ?s0"
  proof (rule index_okI)
    show "finite (dom (map_mm (exceptionRulesMap ?s0)))"
      using remove_mm_size [OF d(1) d(2)] by simp
    show "size_mm (exceptionRulesMap ?s0) = int (card (dom (map_mm (exceptionRulesMap ?s0))))"
      using remove_mm_size [OF d(1) d(2)] by simp
    show "vs \<noteq> []" if "map_mm (exceptionRulesMap ?s0) k = Some vs" for k vs
      using that d(3) [of k vs] by (auto simp add: remove_mm_lookup split: if_splits)
    show "elementsFilter (store ?s0 e) = k \<and> whiteListRule (store ?s0 e) \<and>
          truthy (tagName (store ?s0 e))"
      if "e \<in> set (exceptionsFor (exceptionRulesMap ?s0) k)" for k e
    proof -
      from that have "e \<in> set (exceptionsFor (exceptionRulesMap s) k)"
        by (auto simp add: exceptionsFor_remove_mm split: if_splits dest: set_mp [OF set_remove1_subset])
      then show ?thesis using d(4) [of e k] by simp
    qed
    show "\<not> whiteListRule (store ?s0 x) \<and> truthy (tagName (store ?s0 x))"
      if "x \<in> set (contentRules ?s0)" for x
    proof -
      from that have "x \<in> set (contentRules s)" by (auto dest: set_mp [OF set_remove1_subset])
      then show ?thesis using d(5) [of x] by simp
    qed
  qed
  then show ?thesis
  proof (rule index_ok_cong)
    show "contentRules (removeRule s r) = contentRules ?s0" by (simp add: removeRule_fields)
    show "exceptionRulesMap (removeRule s r) = exceptionRulesMap ?s0"
      by (simp add: removeRule_fields)
    show "static (store (removeRule s r) x) = static (store ?s0 x)" for x
      by (simp add: removeRule_static)
  qed
qed

lemma index_ok_rebuild: "index_ok s \<Longrightarrow> index_ok (rebuild s)"
  by (erule index_ok_cong) (simp_all add: rebuild_frame rebuild_static)

lemma index_ok_perform: "index_ok s \<Longrightarrow> index_ok (perform isP s c)"
  by (cases c) (simp_all add: index_ok_addRule index_ok_removeRule index_ok_rebuild
      getRulesForDomain_state)

lemma perform_static: "static (store (perform isP s c) x) = static (store s x)"
  by (cases c) (simp_all add: addRule_store removeRule_static rebuild_static
      getRulesForDomain_state)

text \<open>The constructor's loop is a sequence of \<^verbatim>\<open>addRule\<close> calls.\<close>

lemma foldl_addRule: "foldl addRule s rs = foldl (perform isP) s (map AddRule rs)"
  by (induction rs arbitrary: s) simp_all

lemma run_as_calls:
  "run isP h rules calls =
     foldl (perform isP)
       \<lparr>contentRules = [], exceptionRulesMap = MultiMap_new, dirty = False, store = h\<rparr>
       (map AddRule (case rules of None \<Rightarrow> [] | Some rs \<Rightarrow> rs) @ calls)"
  by (cases rules) (simp_all add: run_def ContentFilter_new_def foldl_addRule [of _ _ isP])

lemma run_snoc: "run isP h rules (calls @ [c]) = perform isP (run isP h rules calls) c"
  by (simp add: run_def)

lemma foldl_index_ok: "index_ok s \<Longrightarrow> index_ok (foldl (perform isP) s cs)"
  by (induction cs arbitrary: s) (simp_all add: index_ok_perform)

lemma foldl_static: "static (store (foldl (perform isP) s cs) x) = static (store s x)"
  by (induction cs arbitrary: s) (simp_all add: perform_static)

lemma run_index_ok: "index_ok (run isP h rules calls)"
  unfolding run_as_calls by (rule foldl_index_ok) (rule index_ok_empty)

lemma run_static: "static (store (run isP h rules calls) x) = static (h x)"
  unfolding run_as_calls by (simp add: foldl_static)

subsection \<open>Counting occurrences\<close>

lemma count_list_remove1:
  "count_list (remove1 r xs) x = count_list xs x - (if x = r then 1 else 0)"
  by (induction xs) auto

lemma count_list_snoc:
  "count_list (xs @ [r]) x = count_list xs x + (if x = r then 1 else 0)"
  by (induction xs) auto

lemma count_list_pos: "0 < count_list xs x \<longleftrightarrow> x \<in> set xs"
  using count_list_0_iff [of xs x] by auto

lemma tracked_step:
  assumes ok: "index_ok s"
    and st: "\<And>x. static (store s x) = static (h x)"
    and cnt: "\<And>x. count g x = count_list (contentRules s) x +
                count_list (exceptionsFor (exceptionRulesMap s) (elementsFilter (h x))) x"
  shows "count (track h g c) x =
           count_list (contentRules (perform isP s c)) x +
           count_list (exceptionsFor (exceptionRulesMap (perform isP s c)) (elementsFilter (h x))) x"
proof -
  note d = index_okD [OF ok]
  have f: "\<And>y. elementsFilter (store s y) = elementsFilter (h y)"
    "\<And>y. whiteListRule (store s y) = whiteListRule (h y)"
    "\<And>y. tagName (store s y) = tagName (h y)"
    using static_eqD [OF st] by simp_all
  show ?thesis
  proof (cases c)
    case (AddRule r)
    show ?thesis
    proof (cases "truthy (tagName (h r))")
      case False
      then show ?thesis using cnt [of x] AddRule by (simp add: addRule_invalid f)
    next
      case valid: True
      show ?thesis
      proof (cases "whiteListRule (h r)")
        case True
        have "addRule s r =
            s\<lparr>exceptionRulesMap := put (exceptionRulesMap s) (elementsFilter (h r)) r,
              dirty := True\<rparr>"
          using addRule_exception [of s r] valid True by (simp add: f)
        then show ?thesis using cnt [of x] AddRule valid
          by (auto simp add: exceptionsFor_put count_list_snoc)
      next
        case False
        have "addRule s r = s\<lparr>contentRules := contentRules s @ [r], dirty := True\<rparr>"
          using addRule_regular [of s r] valid False by (simp add: f)
        then show ?thesis using cnt [of x] AddRule valid
          by (auto simp add: count_list_snoc)
      qed
    qed
  next
    case (RemoveRule r)
    have both: "count_list (contentRules s) r = 0 \<or>
                count_list (exceptionsFor (exceptionRulesMap s) (elementsFilter (h r))) r = 0"
      using d(4) [of r "elementsFilter (h r)"] d(5) [of r] by (auto simp add: count_list_0_iff)
    show ?thesis
    proof (cases "x = r")
      case True
      with both cnt [of r] RemoveRule show ?thesis
        by (auto simp add: removeRule_fields f exceptionsFor_remove_mm count_list_remove1)
    next
      case False
      with cnt [of x] RemoveRule show ?thesis
        by (auto simp add: removeRule_fields f exceptionsFor_remove_mm count_list_remove1)
    qed
  next
    case (Query dom)
    with cnt [of x] show ?thesis by (simp add: getRulesForDomain_state rebuild_frame)
  qed
qed

lemma tracked_foldl:
  assumes "index_ok s"
    and "\<And>x. static (store s x) = static (h x)"
    and "\<And>x. count g x = count_list (contentRules s) x +
                count_list (exceptionsFor (exceptionRulesMap s) (elementsFilter (h x))) x"
  shows "count (foldl (track h) g cs) x =
           count_list (contentRules (foldl (perform isP) s cs)) x +
           count_list (exceptionsFor (exceptionRulesMap (foldl (perform isP) s cs))
             (elementsFilter (h x))) x"
  using assms
proof (induction cs arbitrary: s g x)
  case Nil
  then show ?case by simp
next
  case (Cons c cs)
  have "count (foldl (track h) (track h g c) cs) x =
      count_list (contentRules (foldl (perform isP) (perform isP s c) cs)) x +
      count_list (exceptionsFor (exceptionRulesMap (foldl (perform isP) (perform isP s c) cs))
             (elementsFilter (h x))) x"
  proof (rule Cons.IH)
    show "index_ok (perform isP s c)" using Cons.prems(1) by (rule index_ok_perform)
    show "static (store (perform isP s c) y) = static (h y)" for y
      using Cons.prems(2) [of y] by (simp add: perform_static)
    show "count (track h g c) y =
        count_list (contentRules (perform isP s c)) y +
        count_list (exceptionsFor (exceptionRulesMap (perform isP s c)) (elementsFilter (h y))) y"
      for y
      by (rule tracked_step [OF Cons.prems(1) Cons.prems(2) Cons.prems(3)])
  qed
  then show ?case by simp
qed

lemma run_tracked:
  "count (inRuleSet h rules calls) x =
     count_list (contentRules (run isP h rules calls)) x +
     count_list (exceptionsFor (exceptionRulesMap (run isP h rules calls))
        (elementsFilter (h x))) x"
  unfolding inRuleSet_def run_as_calls
proof (rule tracked_foldl)
  let ?s0 = "\<lparr>contentRules = [], exceptionRulesMap = MultiMap_new, dirty = False, store = h\<rparr>"
  show "index_ok ?s0" by (rule index_ok_empty)
  show "static (store ?s0 y) = static (h y)" for y by simp
  show "count {#} y = count_list (contentRules ?s0) y +
      count_list (exceptionsFor (exceptionRulesMap ?s0) (elementsFilter (h y))) y" for y
    by (simp add: exceptionsFor_def get_def MultiMap_new_def)
qed

subsection \<open>What a rebuild achieves\<close>

lemma isEmpty_no_exceptions:
  assumes "index_ok s" and "isEmpty (exceptionRulesMap s)"
  shows "exceptionsFor (exceptionRulesMap s) k = []"
proof -
  note d = index_okD [OF assms(1)]
  from assms(2) d(2) have "card (dom (map_mm (exceptionRulesMap s))) = 0"
    by (simp add: isEmpty_def)
  with d(1) have "dom (map_mm (exceptionRulesMap s)) = {}" by simp
  then have "map_mm (exceptionRulesMap s) k = None" by (simp add: dom_def)
  then show ?thesis by (simp add: exceptionsFor_def get_def)
qed

lemma rebuild_restricted_ok:
  assumes "index_ok s"
  shows "restrictedDomains (store (rebuild s) x) =
     (if dirty s \<and> x \<in> set (contentRules s)
      then restrictedDomains (store s x) \<union> exceptionDomains s x
      else restrictedDomains (store s x))"
proof (cases "dirty s")
  case False
  then show ?thesis by (simp add: rebuild_clean)
next
  case True
  show ?thesis
  proof (cases "isEmpty (exceptionRulesMap s)")
    case False
    with True show ?thesis by (simp add: rebuild_restricted)
  next
    case empty: True
    have "exceptionDomains s x = {}"
      by (simp add: exceptionDomains_def isEmpty_no_exceptions [OF assms empty])
    with empty show ?thesis by (simp add: rebuild_empty)
  qed
qed

lemma exceptionDomains_rebuild: "exceptionDomains (rebuild s) r = exceptionDomains s r"
  by (rule exceptionDomains_cong) (simp_all add: rebuild_frame rebuild_static)

lemma exceptionDomains_ok:
  assumes "index_ok s"
  shows "exceptionDomains s r =
     (\<Union>e \<in> set (exceptionsFor (exceptionRulesMap s) (elementsFilter (store s r))).
        permittedDomains (store s e))"
  unfolding exceptionDomains_def using index_okD(4) [OF assms] by auto

lemma applied_perform:
  assumes ok: "index_ok s"
    and ap: "\<not> dirty s \<Longrightarrow>
       \<forall>r \<in> set (contentRules s). exceptionDomains s r \<subseteq> restrictedDomains (store s r)"
    and clean: "\<not> dirty (perform isP s c)"
    and mem: "r \<in> set (contentRules (perform isP s c))"
  shows "exceptionDomains (perform isP s c) r \<subseteq> restrictedDomains (store (perform isP s c) r)"
proof (cases c)
  case (AddRule a)
  show ?thesis
  proof (cases "truthy (tagName (store s a))")
    case False
    with AddRule clean mem ap show ?thesis by (simp add: addRule_invalid)
  next
    case True
    with AddRule clean show ?thesis by (simp add: addRule_def)
  qed
next
  case (RemoveRule a)
  with clean show ?thesis by (simp add: removeRule_fields)
next
  case (Query dom)
  have p: "perform isP s c = rebuild s" using Query by (simp add: getRulesForDomain_state)
  from mem have m: "r \<in> set (contentRules s)" by (simp add: p rebuild_frame)
  show ?thesis
  proof (cases "dirty s")
    case True
    with m show ?thesis
      by (simp add: p exceptionDomains_rebuild rebuild_restricted_ok [OF ok])
  next
    case False
    with ap m show ?thesis by (simp add: p rebuild_clean)
  qed
qed

lemma applied_foldl:
  assumes "index_ok s"
    and "\<not> dirty s \<Longrightarrow>
       \<forall>r \<in> set (contentRules s). exceptionDomains s r \<subseteq> restrictedDomains (store s r)"
    and "\<not> dirty (foldl (perform isP) s cs)"
  shows "\<forall>r \<in> set (contentRules (foldl (perform isP) s cs)).
           exceptionDomains (foldl (perform isP) s cs) r \<subseteq>
           restrictedDomains (store (foldl (perform isP) s cs) r)"
  using assms
proof (induction cs arbitrary: s)
  case Nil
  then show ?case by simp
next
  case (Cons c cs)
  have "\<forall>r \<in> set (contentRules (foldl (perform isP) (perform isP s c) cs)).
           exceptionDomains (foldl (perform isP) (perform isP s c) cs) r \<subseteq>
           restrictedDomains (store (foldl (perform isP) (perform isP s c) cs) r)"
  proof (rule Cons.IH)
    show "index_ok (perform isP s c)" using Cons.prems(1) by (rule index_ok_perform)
    show "\<forall>r \<in> set (contentRules (perform isP s c)).
        exceptionDomains (perform isP s c) r \<subseteq> restrictedDomains (store (perform isP s c) r)"
      if "\<not> dirty (perform isP s c)"
      using applied_perform [OF Cons.prems(1) Cons.prems(2) that] by blast
    show "\<not> dirty (foldl (perform isP) (perform isP s c) cs)" using Cons.prems(3) by simp
  qed
  then show ?case by simp
qed

lemma run_applied:
  assumes "\<not> dirty (run isP h rules calls)"
  shows "\<forall>r \<in> set (contentRules (run isP h rules calls)).
           exceptionDomains (run isP h rules calls) r \<subseteq>
           restrictedDomains (store (run isP h rules calls) r)"
  using assms unfolding run_as_calls
  by (intro applied_foldl index_ok_empty) simp_all

lemmas example_defs =
  run_defs exceptionsFor_def exceptionDomains_def inRuleSet_def

lemma count_list_remove1_snoc2:
  "count_list (remove1 e (xs @ [e, e])) e = count_list xs e + 1"
  by (simp add: count_list_remove1)

subsection \<open>Counting the applications of a rebuild\<close>

lemma applyExceptionRule_calls_count:
  "count_list (applyExceptionRule_calls h r e) (r', e') =
     (if r' = r \<and> e' = e \<and> elementsFilter (h r) = elementsFilter (h e) then 1 else 0)"
  by (simp add: applyExceptionRule_calls_def)

lemma applyExceptionRules_loop_calls_count:
  "count_list (applyExceptionRules_loop_calls h r es) (r', e') =
     (if r' = r \<and> elementsFilter (h r) = elementsFilter (h e') then count_list es e' else 0)"
proof (induction es arbitrary: h)
  case Nil
  show ?case by simp
next
  case (Cons e es)
  let ?h1 = "applyExceptionRule h r e"
  have ef: "\<And>x. elementsFilter (?h1 x) = elementsFilter (h x)"
    by (rule static_eqD(2) [OF applyExceptionRule_static])
  have "count_list (applyExceptionRules_loop_calls h r (e # es)) (r', e') =
      count_list (applyExceptionRule_calls h r e) (r', e') +
      count_list (applyExceptionRules_loop_calls ?h1 r es) (r', e')"
    by simp
  also have "\<dots> =
      (if r' = r \<and> e' = e \<and> elementsFilter (h r) = elementsFilter (h e) then 1 else 0) +
      (if r' = r \<and> elementsFilter (h r) = elementsFilter (h e') then count_list es e' else 0)"
    by (simp only: applyExceptionRule_calls_count Cons.IH ef)
  also have "\<dots> =
      (if r' = r \<and> elementsFilter (h r) = elementsFilter (h e')
       then count_list (e # es) e' else 0)"
    by auto
  finally show ?case .
qed

lemma applyExceptionRules_calls_count:
  "count_list (applyExceptionRules_calls s r) (r', e') =
     (if r' = r \<and> elementsFilter (store s r) = elementsFilter (store s e')
      then count_list (exceptionsFor (exceptionRulesMap s) (elementsFilter (store s r))) e'
      else 0)"
  by (cases "get (exceptionRulesMap s) (elementsFilter (store s r))")
     (auto simp add: applyExceptionRules_calls_def exceptionsFor_def
        applyExceptionRules_loop_calls_count)

lemma rebuild_loop_calls_count:
  "count_list (rebuild_loop_calls s rs) (r', e') =
     (if elementsFilter (store s r') = elementsFilter (store s e')
      then count_list rs r' *
           count_list (exceptionsFor (exceptionRulesMap s) (elementsFilter (store s r'))) e'
      else 0)"
proof (induction rs arbitrary: s)
  case Nil
  show ?case by simp
next
  case (Cons r rs)
  let ?s1 = "applyExceptionRules s r"
  have ef: "\<And>x. elementsFilter (store ?s1 x) = elementsFilter (store s x)"
    by (rule static_eqD(2) [OF applyExceptionRules_static])
  have mm: "exceptionRulesMap ?s1 = exceptionRulesMap s" by (rule applyExceptionRules_frame)
  have "count_list (rebuild_loop_calls s (r # rs)) (r', e') =
      count_list (applyExceptionRules_calls s r) (r', e') +
      count_list (rebuild_loop_calls ?s1 rs) (r', e')"
    by simp
  also have "\<dots> =
      (if r' = r \<and> elementsFilter (store s r) = elementsFilter (store s e')
       then count_list (exceptionsFor (exceptionRulesMap s) (elementsFilter (store s r))) e'
       else 0) +
      (if elementsFilter (store s r') = elementsFilter (store s e')
       then count_list rs r' *
            count_list (exceptionsFor (exceptionRulesMap s) (elementsFilter (store s r'))) e'
       else 0)"
    by (simp only: applyExceptionRules_calls_count Cons.IH ef mm)
  also have "\<dots> =
      (if elementsFilter (store s r') = elementsFilter (store s e')
       then count_list (r # rs) r' *
            count_list (exceptionsFor (exceptionRulesMap s) (elementsFilter (store s r'))) e'
       else 0)"
    by auto
  finally show ?case .
qed

lemma rebuild_calls_count:
  assumes ok: "index_ok s"
  shows "count_list (rebuild_calls s) (r, e) =
     (if dirty s
      then count_list (contentRules s) r *
           count_list (exceptionsFor (exceptionRulesMap s) (elementsFilter (store s r))) e
      else 0)"
proof (cases "dirty s")
  case False
  then show ?thesis by (simp add: rebuild_calls_def)
next
  case True
  show ?thesis
  proof (cases "isEmpty (exceptionRulesMap s)")
    case empty: True
    with True show ?thesis
      by (simp add: rebuild_calls_def isEmpty_no_exceptions [OF ok empty])
  next
    case False
    have "count_list (exceptionsFor (exceptionRulesMap s) (elementsFilter (store s r))) e = 0"
      if "elementsFilter (store s r) \<noteq> elementsFilter (store s e)"
      using that index_okD(4) [OF ok, of e "elementsFilter (store s r)"]
      by (auto simp add: count_list_0_iff)
    with True False show ?thesis
      by (simp add: rebuild_calls_def rebuild_loop_calls_count)
  qed
qed

lemma rebuild_calls_clean: "\<not> dirty s \<Longrightarrow> rebuild_calls s = []"
  by (simp add: rebuild_calls_def)

lemma run_calls_from_append:
  "run_calls_from isP s (cs @ ds) =
     run_calls_from isP s cs @ run_calls_from isP (foldl (perform isP) s cs) ds"
  by (induction cs arbitrary: s) simp_all

lemma applications_snoc:
  "applications isP h rules (calls @ [c]) =
     applications isP h rules calls @ perform_calls (run isP h rules calls) c"
  by (simp add: applications_def run_def run_calls_from_append)

subsection \<open>The round trip through a query\<close>

lemma exceptionDomains_put:
  assumes "elementsFilter (store s r) = elementsFilter (store s e)"
  shows "exceptionDomains
           (s\<lparr>exceptionRulesMap := put (exceptionRulesMap s) (elementsFilter (store s e)) e,
              dirty := b\<rparr>) r =
         exceptionDomains s r \<union> permittedDomains (store s e)"
  using assms by (auto simp add: exceptionDomains_def exceptionsFor_put split: if_splits)

lemma add_query_restricted:
  assumes s: "s = run isP h rules calls"
    and wl: "whiteListRule (h e)"
    and mem: "r \<in> set (contentRules s)"
    and key: "elementsFilter (h r) = elementsFilter (h e)"
  shows "restrictedDomains (store (rebuild (addRule s e)) r) =
           restrictedDomains (store s r) \<union> exceptionDomains s r \<union>
           (if truthy (tagName (h e)) then permittedDomains (h e) else {})"
proof -
  have ok: "index_ok s" unfolding s by (rule run_index_ok)
  have st: "\<And>x. static (store s x) = static (h x)" unfolding s by (rule run_static)
  have f: "\<And>y. elementsFilter (store s y) = elementsFilter (h y)"
    "\<And>y. whiteListRule (store s y) = whiteListRule (h y)"
    "\<And>y. tagName (store s y) = tagName (h y)"
    "\<And>y. permittedDomains (store s y) = permittedDomains (h y)"
    using static_eqD [OF st] by simp_all
  show ?thesis
  proof (cases "truthy (tagName (h e))")
    case True
    let ?s1 = "s\<lparr>exceptionRulesMap := put (exceptionRulesMap s) (elementsFilter (store s e)) e,
                 dirty := True\<rparr>"
    have a: "addRule s e = ?s1"
      using addRule_exception [of s e] True wl by (simp add: f)
    have "index_ok (addRule s e)" using ok by (rule index_ok_addRule)
    then have ok1: "index_ok ?s1" unfolding a .
    have ed: "exceptionDomains ?s1 r = exceptionDomains s r \<union> permittedDomains (store s e)"
      by (rule exceptionDomains_put) (simp add: f key)
    have "restrictedDomains (store (rebuild ?s1) r) =
        restrictedDomains (store ?s1 r) \<union> exceptionDomains ?s1 r"
      using mem by (simp add: rebuild_restricted_ok [OF ok1])
    then show ?thesis unfolding a ed using True by (simp add: f Un_assoc)
  next
    case False
    have a: "addRule s e = s" using False by (simp add: addRule_invalid f)
    show ?thesis
    proof (cases "dirty s")
      case True
      with mem False show ?thesis by (simp add: a rebuild_restricted_ok [OF ok])
    next
      case clean: False
      have "exceptionDomains s r \<subseteq> restrictedDomains (store s r)"
        using run_applied [of isP h rules calls] clean mem unfolding s by blast
      with clean False show ?thesis by (auto simp add: a rebuild_clean)
    qed
  qed
qed

lemmas calls_defs =
  applications_def rebuild_calls_def applyExceptionRules_calls_def applyExceptionRule_calls_def

section \<open>Removing an exception rule after adding it\<close>

text \<open>
  C1, as stated, fails in two ways. Where the regular rule is already restricted on a
  domain the exception permits (rule 0 of the first store, restricted on \<^verbatim>\<open>a.com\<close> by
  itself; exception 1 permits \<^verbatim>\<open>a.com\<close>), adding and removing the exception, with or
  without a query in between, leaves the rule restricted nowhere. Where the rule set is
  dirty before the exception is added (second store: rule 2 restricted nowhere,
  exception 6, permitting \<^verbatim>\<open>b.com\<close>, added but not yet applied), the query between
  adding and removing exception 1 applies the pending exception too, and rule 2 ends
  restricted on \<^verbatim>\<open>b.com\<close>.
\<close>

theorem remove_after_add_counterexample:
  "restrictedDomains (store (ContentFilter_new example_store (Some [0])) 0) = {''a.com''} \<and>
   elementsFilter (example_store 0) = elementsFilter (example_store 1) \<and>
   whiteListRule (example_store 1) \<and> \<not> whiteListRule (example_store 0) \<and>
   restrictedDomains
     (store (removeRule (addRule (ContentFilter_new example_store (Some [0])) 1) 1) 0) = {} \<and>
   restrictedDomains
     (store (removeRule (snd (getRulesForDomain unrestricted ''a.com''
        (addRule (ContentFilter_new example_store (Some [0])) 1))) 1) 0) = {} \<and>
   restrictedDomains (store (ContentFilter_new pending_store (Some [2, 6])) 2) = {} \<and>
   dirty (ContentFilter_new pending_store (Some [2, 6])) \<and>
   restrictedDomains
     (store (removeRule (snd (getRulesForDomain unrestricted ''a.com''
        (addRule (ContentFilter_new pending_store (Some [2, 6])) 1))) 1) 2) = {''b.com''}"
proof -
  have a: "restrictedDomains (store (ContentFilter_new example_store (Some [0])) 0) = {''a.com''} \<and>
   elementsFilter (example_store 0) = elementsFilter (example_store 1) \<and>
   whiteListRule (example_store 1) \<and> \<not> whiteListRule (example_store 0) \<and>
   restrictedDomains
     (store (removeRule (addRule (ContentFilter_new example_store (Some [0])) 1) 1) 0) = {} \<and>
   restrictedDomains
     (store (removeRule (snd (getRulesForDomain unrestricted ''a.com''
        (addRule (ContentFilter_new example_store (Some [0])) 1))) 1) 0) = {}"
    by (simp add: run_defs)
  have b: "restrictedDomains (store (ContentFilter_new pending_store (Some [2, 6])) 2) = {} \<and>
   dirty (ContentFilter_new pending_store (Some [2, 6])) \<and>
   restrictedDomains
     (store (removeRule (snd (getRulesForDomain unrestricted ''a.com''
        (addRule (ContentFilter_new pending_store (Some [2, 6])) 1))) 1) 2) = {''b.com''}"
    by (simp add: run_defs pending_store_def)
  from a b show ?thesis by (simp only: simp_thms)
qed

text \<open>
  C1, amended. In every state reached by the constructor and a sequence of calls, for
  every exception rule \<open>e\<close> and every rule \<open>r\<close> of \<^verbatim>\<open>contentRules\<close> with \<open>e\<close>'s
  \<^verbatim>\<open>elementsFilter\<close>: after \<^verbatim>\<open>addRule(e)\<close>, a query (either one) and \<^verbatim>\<open>removeRule(e)\<close>,
  the restricted domains of \<open>r\<close> are those it had before \<open>e\<close> was added, together with
  the permitted domains of the exceptions the index held for it then, without the
  domains \<open>e\<close> permits. The query does apply \<open>e\<close> when \<^verbatim>\<open>addRule\<close> accepted it: its
  permitted domains are among the restricted ones of \<open>r\<close> before the removal. When the
  rule set was not dirty before, the result is the earlier set without the domains
  \<open>e\<close> permits, and is the earlier set exactly when that shares no domain with them.
  Without the query the result is the earlier set without the domains \<open>e\<close> permits as
  well. The subtraction is done by \<^verbatim>\<open>removeRule\<close> itself, whatever the \<^verbatim>\<open>dirty\<close> flag
  is.
\<close>

theorem removeRule_reverses:
  assumes "s = run isP h rules calls"
    and "whiteListRule (h e)"
    and "r \<in> set (contentRules s)"
    and "elementsFilter (h r) = elementsFilter (h e)"
  shows "restrictedDomains
           (store (removeRule (snd (getRulesForDomain isP d (addRule s e))) e) r) =
           (restrictedDomains (store s r) \<union> exceptionDomains s r) - permittedDomains (h e)
       \<and> restrictedDomains
           (store (removeRule (snd (getMatchedElements tr isP doc d (addRule s e))) e) r) =
           (restrictedDomains (store s r) \<union> exceptionDomains s r) - permittedDomains (h e)
       \<and> (truthy (tagName (h e)) \<longrightarrow>
            permittedDomains (h e) \<subseteq>
              restrictedDomains (store (snd (getRulesForDomain isP d (addRule s e))) r))
       \<and> (\<not> dirty s \<longrightarrow>
            restrictedDomains
              (store (removeRule (snd (getRulesForDomain isP d (addRule s e))) e) r) =
              restrictedDomains (store s r) - permittedDomains (h e))
       \<and> (\<not> dirty s \<and> restrictedDomains (store s r) \<inter> permittedDomains (h e) = {} \<longrightarrow>
            restrictedDomains
              (store (removeRule (snd (getRulesForDomain isP d (addRule s e))) e) r) =
              restrictedDomains (store s r))
       \<and> restrictedDomains (store (removeRule (addRule s e) e) r) =
           restrictedDomains (store s r) - permittedDomains (h e)
       \<and> (restrictedDomains (store s r) \<inter> permittedDomains (h e) = {} \<longrightarrow>
            restrictedDomains (store (removeRule (addRule s e) e) r) =
              restrictedDomains (store s r))
       \<and> (\<forall>b. restrictedDomains (store (removeRule (s\<lparr>dirty := b\<rparr>) e) r) =
            restrictedDomains (store s r) - permittedDomains (h e))"
proof -
  have ok: "index_ok s" unfolding assms(1) by (rule run_index_ok)
  have st: "\<And>x. static (store s x) = static (h x)" unfolding assms(1) by (rule run_static)
  have f: "\<And>y. elementsFilter (store s y) = elementsFilter (h y)"
    "\<And>y. whiteListRule (store s y) = whiteListRule (h y)"
    "\<And>y. permittedDomains (store s y) = permittedDomains (h y)"
    using static_eqD [OF st] by simp_all
  have "\<not> whiteListRule (h r)" using index_okD(5) [OF ok assms(3)] by (simp add: f)
  with assms(2) have ne: "r \<noteq> e" by auto
  with assms(3) have mem: "r \<in> set (remove1 e (contentRules s))" by simp
  let ?s1 = "addRule s e"
  let ?q = "rebuild ?s1"
  have cr1: "contentRules ?s1 = contentRules s" using assms(2) by (simp add: addRule_def f)
  have stq: "\<And>x. static (store ?q x) = static (h x)"
    by (simp add: rebuild_static addRule_store st)
  have fq: "\<And>y. elementsFilter (store ?q y) = elementsFilter (h y)"
    "\<And>y. whiteListRule (store ?q y) = whiteListRule (h y)"
    "\<And>y. permittedDomains (store ?q y) = permittedDomains (h y)"
    using static_eqD [OF stq] by simp_all
  have applied: "restrictedDomains (store ?q r) =
      restrictedDomains (store s r) \<union> exceptionDomains s r \<union>
      (if truthy (tagName (h e)) then permittedDomains (h e) else {})"
    using assms by (rule add_query_restricted)
  have "restrictedDomains (store (removeRule ?q e) r) =
      restrictedDomains (store ?q r) - permittedDomains (h e)"
    using assms(2,4) mem by (simp add: removeRule_restricted fq rebuild_frame cr1)
  then have trip: "restrictedDomains (store (removeRule ?q e) r) =
      (restrictedDomains (store s r) \<union> exceptionDomains s r) - permittedDomains (h e)"
    unfolding applied by auto
  have c1: "restrictedDomains
      (store (removeRule (snd (getRulesForDomain isP d ?s1)) e) r) =
      (restrictedDomains (store s r) \<union> exceptionDomains s r) - permittedDomains (h e)"
    using trip by (simp add: getRulesForDomain_state)
  have c2: "restrictedDomains
      (store (removeRule (snd (getMatchedElements tr isP doc d ?s1)) e) r) =
      (restrictedDomains (store s r) \<union> exceptionDomains s r) - permittedDomains (h e)"
    using trip by (simp add: getMatchedElements_state)
  have c3: "permittedDomains (h e) \<subseteq>
      restrictedDomains (store (snd (getRulesForDomain isP d ?s1)) r)"
    if "truthy (tagName (h e))"
    using that applied by (simp add: getRulesForDomain_state)
  have sub: "exceptionDomains s r \<subseteq> restrictedDomains (store s r)" if "\<not> dirty s"
    using run_applied [of isP h rules calls] that assms(3) unfolding assms(1) by blast
  have c4: "restrictedDomains
      (store (removeRule (snd (getRulesForDomain isP d ?s1)) e) r) =
      restrictedDomains (store s r) - permittedDomains (h e)"
    if "\<not> dirty s"
    using sub [OF that] unfolding c1 by auto
  have c6: "restrictedDomains (store (removeRule ?s1 e) r) =
           restrictedDomains (store s r) - permittedDomains (h e)"
    using assms(2,4) mem by (simp add: removeRule_restricted addRule_store cr1 f)
  have c8: "\<And>b. restrictedDomains (store (removeRule (s\<lparr>dirty := b\<rparr>) e) r) =
            restrictedDomains (store s r) - permittedDomains (h e)"
    using assms(2,4) mem by (simp add: removeRule_restricted f)
  from c1 c2 c3 c4 c6 c8 show ?thesis by auto
qed

theorem removeRule_reverses_witness:
  "\<not> dirty (run unrestricted example_store (Some [2]) [Query ''x.com'']) \<and>
   whiteListRule (example_store 1) \<and> truthy (tagName (example_store 1)) \<and>
   2 \<in> set (contentRules (run unrestricted example_store (Some [2]) [Query ''x.com''])) \<and>
   elementsFilter (example_store 2) = elementsFilter (example_store 1) \<and>
   restrictedDomains (store (run unrestricted example_store (Some [2]) [Query ''x.com'']) 2) = {} \<and>
   permittedDomains (example_store 1) = {''a.com''} \<and>
   {''a.com''} \<subseteq> restrictedDomains (store (snd (getRulesForDomain unrestricted ''a.com''
       (addRule (run unrestricted example_store (Some [2]) [Query ''x.com'']) 1))) 2) \<and>
   restrictedDomains (store (removeRule (snd (getRulesForDomain unrestricted ''a.com''
       (addRule (run unrestricted example_store (Some [2]) [Query ''x.com'']) 1))) 1) 2) = {}"
proof -
  let ?s = "run unrestricted example_store (Some [2]) [Query ''x.com'']"
  have cl: "\<not> dirty ?s" by (simp add: run_defs)
  have cr: "contentRules ?s = [2]" by (simp add: run_defs)
  have h3: "2 \<in> set (contentRules ?s)" unfolding cr by simp
  have f: "whiteListRule (example_store 1)" "truthy (tagName (example_store 1))"
    "elementsFilter (example_store 2) = elementsFilter (example_store 1)"
    "permittedDomains (example_store 1) = {''a.com''}"
    by (simp_all add: example_store_def regular_rule_def exception_rule_def)
  have s0: "restrictedDomains (store ?s 2) = {}" by (simp add: run_defs)
  note w = removeRule_reverses [where isP = unrestricted and h = example_store
      and rules = "Some [2]" and calls = "[Query ''x.com'']" and d = "''a.com''"
      and e = 1 and r = 2, OF refl f(1) h3 f(3)]
  have c3: "{''a.com''} \<subseteq> restrictedDomains (store (snd (getRulesForDomain unrestricted ''a.com''
       (addRule ?s 1))) 2)"
    using w [THEN conjunct2, THEN conjunct2, THEN conjunct1] f(2) unfolding f(4) by blast
  have "\<not> dirty ?s \<and> restrictedDomains (store ?s 2) \<inter> permittedDomains (example_store 1) = {}"
    using cl s0 by simp
  with w [THEN conjunct2, THEN conjunct2, THEN conjunct2, THEN conjunct2, THEN conjunct1]
  have "restrictedDomains (store (removeRule (snd (getRulesForDomain unrestricted ''a.com''
       (addRule ?s 1))) 1) 2) = restrictedDomains (store ?s 2)"
    by blast
  then have c5: "restrictedDomains (store (removeRule (snd (getRulesForDomain unrestricted ''a.com''
       (addRule ?s 1))) 1) 2) = {}"
    unfolding s0 .
  from cl f h3 s0 c3 c5 show ?thesis by blast
qed

section \<open>The rules for a domain\<close>

text \<open>
  C2. For every state of the rule set and every domain, \<^verbatim>\<open>getRulesForDomain\<close> returns
  the rules of \<^verbatim>\<open>contentRules\<close>, in their order, whose \<^verbatim>\<open>isPermitted\<close> accepts the
  domain (asked of the rule objects as the query's rebuild leaves them); when there is
  none it returns \<^verbatim>\<open>null\<close>, never an empty sequence. The function is total: no error.
\<close>

theorem getRulesForDomain_result:
  "fst (getRulesForDomain isP d s) =
     (if filter (\<lambda>r. isP (store (snd (getRulesForDomain isP d s)) r) d) (contentRules s) = []
      then None
      else Some (filter (\<lambda>r. isP (store (snd (getRulesForDomain isP d s)) r) d) (contentRules s)))
   \<and> fst (getRulesForDomain isP d s) \<noteq> Some []
   \<and> contentRules (snd (getRulesForDomain isP d s)) = contentRules s"
proof -
  have st: "snd (getRulesForDomain isP d s) = rebuild s" by (rule getRulesForDomain_state)
  have res: "fst (getRulesForDomain isP d s) =
      getRulesForDomain_loop isP (store (rebuild s)) d (contentRules s) None"
    by (simp add: getRulesForDomain_def Let_def rebuild_clean rebuild_frame)
  show ?thesis
    unfolding st res by (simp add: getRulesForDomain_loop_filter rebuild_frame)
qed

theorem getRulesForDomain_result_witness:
  "fst (getRulesForDomain unrestricted ''x.com''
          (ContentFilter_new example_store (Some [0, 2, 4]))) = Some [0, 2, 4]
   \<and> fst (getRulesForDomain unrestricted ''a.com''
          (ContentFilter_new example_store (Some [0]))) = None"
  using getRulesForDomain_result [of unrestricted "''x.com''"
          "ContentFilter_new example_store (Some [0, 2, 4])"]
    getRulesForDomain_result [of unrestricted "''a.com''"
          "ContentFilter_new example_store (Some [0])"]
  by (simp add: run_defs)

section \<open>The rebuild on the first query\<close>

text \<open>
  C3, as stated, fails as a count of applications: with \<^verbatim>\<open>dirty\<close> false, an exception
  has not been applied to a regular rule exactly once. Every rebuild applies every pair
  again (rule 2 and exception 1, a query, rule 0 added, a query: the pair (2, 1) is
  applied in both rebuilds), and one rebuild applies a pair once for each occurrence of
  the rule in \<^verbatim>\<open>contentRules\<close> (rule 2 added twice: the pair is applied twice by the
  first query).
\<close>

theorem lazy_rebuild_counterexample:
  "\<not> dirty (run unrestricted example_store (Some [2, 1])
       [Query ''x.com'', AddRule 0, Query ''x.com'']) \<and>
   applications unrestricted example_store (Some [2, 1])
       [Query ''x.com'', AddRule 0, Query ''x.com''] = [(2, 1), (2, 1), (0, 1)] \<and>
   \<not> dirty (run unrestricted example_store (Some [2, 2, 1]) [Query ''x.com'']) \<and>
   applications unrestricted example_store (Some [2, 2, 1]) [Query ''x.com''] =
     [(2, 1), (2, 1)]"
proof -
  have a: "\<not> dirty (run unrestricted example_store (Some [2, 1])
       [Query ''x.com'', AddRule 0, Query ''x.com''])"
    by (simp add: run_defs)
  have b: "applications unrestricted example_store (Some [2, 1])
       [Query ''x.com'', AddRule 0, Query ''x.com''] = [(2, 1), (2, 1), (0, 1)]"
    by (simp add: calls_defs run_defs)
  have c: "\<not> dirty (run unrestricted example_store (Some [2, 2, 1]) [Query ''x.com''])"
    by (simp add: run_defs)
  have d: "applications unrestricted example_store (Some [2, 2, 1]) [Query ''x.com''] =
     [(2, 1), (2, 1)]"
    by (simp add: calls_defs run_defs)
  from a b c d show ?thesis by (simp only: simp_thms)
qed

text \<open>
  C3, amended. In every state reached by the constructor and a sequence of calls, a query
  (either one, without any explicit call of \<^verbatim>\<open>rebuild\<close>) leaves \<^verbatim>\<open>dirty\<close> false and
  every regular rule restricted on what it was restricted on before together with the
  permitted domains of every exception rule the index holds for its
  \<^verbatim>\<open>elementsFilter\<close>. \<^verbatim>\<open>removeRule\<close>, and \<^verbatim>\<open>addRule\<close> of an accepted rule, set
  \<^verbatim>\<open>dirty\<close>, so the query after them is one that rebuilds. A query in a dirty state
  applies an exception to a regular rule as many times as the rule occurs in
  \<^verbatim>\<open>contentRules\<close> times the exception occurs under the rule's key in the index: once
  when neither is duplicated, and once more in every later rebuild. A query in a state
  that is not dirty applies nothing and changes nothing, so a further query adds no
  application and leaves every restricted-domain set as it is; in such a state the
  permitted domains of the exceptions are already contained in the restricted ones.
\<close>

theorem lazy_rebuild:
  assumes "s = run isP h rules calls" and "q = snd (getRulesForDomain isP d s)"
  shows "\<not> dirty q
       \<and> snd (getMatchedElements tr isP doc d s) = q
       \<and> (\<forall>r \<in> set (contentRules s).
            restrictedDomains (store q r) =
              restrictedDomains (store s r) \<union> exceptionDomains s r)
       \<and> (\<forall>r \<in> set (contentRules q).
            \<forall>e \<in> set (exceptionsFor (exceptionRulesMap q) (elementsFilter (store q r))).
              permittedDomains (store q e) \<subseteq> restrictedDomains (store q r))
       \<and> snd (getRulesForDomain isP d' q) = q
       \<and> snd (getMatchedElements tr isP doc d' q) = q
       \<and> (\<not> dirty s \<longrightarrow> q = s \<and>
            (\<forall>r \<in> set (contentRules s).
               exceptionDomains s r \<subseteq> restrictedDomains (store s r)))
       \<and> (\<forall>x. dirty (removeRule s x) \<and>
              (truthy (tagName (store s x)) \<longrightarrow> dirty (addRule s x)))
       \<and> (\<forall>r e. count_list (perform_calls s (Query d)) (r, e) =
              (if dirty s
               then count_list (contentRules s) r *
                    count_list (exceptionsFor (exceptionRulesMap s)
                      (elementsFilter (store s r))) e
               else 0))
       \<and> perform_calls q (Query d') = []
       \<and> applications isP h rules (calls @ [Query d, Query d']) =
           applications isP h rules calls @ perform_calls s (Query d)"
proof -
  have ok: "index_ok s" unfolding assms by (rule run_index_ok)
  have q: "q = rebuild s" unfolding assms(2) by (rule getRulesForDomain_state)
  have okq: "index_ok q" unfolding q using ok by (rule index_ok_rebuild)
  have c1: "\<not> dirty q" by (simp add: q rebuild_dirty)
  have c2: "snd (getMatchedElements tr isP doc d s) = q" by (simp add: q getMatchedElements_state)
  have ap: "\<forall>r \<in> set (contentRules s). exceptionDomains s r \<subseteq> restrictedDomains (store s r)"
    if "\<not> dirty s"
    using run_applied [of isP h rules calls] that unfolding assms(1) by simp
  have c3: "restrictedDomains (store q r) = restrictedDomains (store s r) \<union> exceptionDomains s r"
    if "r \<in> set (contentRules s)" for r
    using that ap by (cases "dirty s") (auto simp add: q rebuild_restricted_ok [OF ok])
  have c4: "permittedDomains (store q e) \<subseteq> restrictedDomains (store q r)"
    if "r \<in> set (contentRules q)"
      and "e \<in> set (exceptionsFor (exceptionRulesMap q) (elementsFilter (store q r)))" for r e
  proof -
    from that(1) have m: "r \<in> set (contentRules s)" by (simp add: q rebuild_frame)
    have "permittedDomains (store q e) \<subseteq> exceptionDomains q r"
      unfolding exceptionDomains_ok [OF okq] using that(2) by blast
    also have "\<dots> = exceptionDomains s r" by (simp add: q exceptionDomains_rebuild)
    also have "\<dots> \<subseteq> restrictedDomains (store q r)" using c3 [OF m] by simp
    finally show ?thesis .
  qed
  have c5: "snd (getRulesForDomain isP d' q) = q"
    using c1 by (simp add: getRulesForDomain_state rebuild_clean)
  have c6: "snd (getMatchedElements tr isP doc d' q) = q"
    using c1 by (simp add: getMatchedElements_state rebuild_clean)
  have c7: "q = s" if "\<not> dirty s" using that by (simp add: q rebuild_clean)
  have c8: "dirty (removeRule s x) \<and> (truthy (tagName (store s x)) \<longrightarrow> dirty (addRule s x))"
    for x
    by (simp add: removeRule_fields addRule_def)
  have pc: "perform_calls s (Query d) = rebuild_calls s"
    by (simp add: rebuild_calls_clean)
  have c9: "count_list (perform_calls s (Query d)) (r, e) =
      (if dirty s
       then count_list (contentRules s) r *
            count_list (exceptionsFor (exceptionRulesMap s) (elementsFilter (store s r))) e
       else 0)" for r e
    unfolding pc by (rule rebuild_calls_count [OF ok])
  have c10: "perform_calls q (Query d') = []" using c1 by simp
  have "calls @ [Query d, Query d'] = (calls @ [Query d]) @ [Query d']" by simp
  then have "applications isP h rules (calls @ [Query d, Query d']) =
      (applications isP h rules calls @ perform_calls (run isP h rules calls) (Query d)) @
      perform_calls (run isP h rules (calls @ [Query d])) (Query d')"
    by (simp only: applications_snoc)
  also have "run isP h rules (calls @ [Query d]) = q"
    unfolding assms by (simp add: run_snoc)
  finally have c11: "applications isP h rules (calls @ [Query d, Query d']) =
      applications isP h rules calls @ perform_calls s (Query d)"
    unfolding c10 assms(1) by simp
  have old: "\<not> dirty q
       \<and> snd (getMatchedElements tr isP doc d s) = q
       \<and> (\<forall>r \<in> set (contentRules s).
            restrictedDomains (store q r) =
              restrictedDomains (store s r) \<union> exceptionDomains s r)
       \<and> (\<forall>r \<in> set (contentRules q).
            \<forall>e \<in> set (exceptionsFor (exceptionRulesMap q) (elementsFilter (store q r))).
              permittedDomains (store q e) \<subseteq> restrictedDomains (store q r))
       \<and> snd (getRulesForDomain isP d' q) = q
       \<and> snd (getMatchedElements tr isP doc d' q) = q
       \<and> (\<not> dirty s \<longrightarrow> q = s \<and>
            (\<forall>r \<in> set (contentRules s).
               exceptionDomains s r \<subseteq> restrictedDomains (store s r)))
       \<and> (\<forall>x. dirty (removeRule s x) \<and>
              (truthy (tagName (store s x)) \<longrightarrow> dirty (addRule s x)))"
    using c1 c2 c3 c4 c5 c6 c7 ap c8 by blast
  have new: "\<forall>r e. count_list (perform_calls s (Query d)) (r, e) =
              (if dirty s
               then count_list (contentRules s) r *
                    count_list (exceptionsFor (exceptionRulesMap s)
                      (elementsFilter (store s r))) e
               else 0)"
    using c9 by blast
  from old new c10 c11 show ?thesis by (elim conjE) (intro conjI; assumption)
qed

theorem lazy_rebuild_witness:
  "contentRules (run unrestricted example_store (Some [0, 2]) [AddRule 1]) = [0, 2] \<and>
   exceptionsFor (exceptionRulesMap (run unrestricted example_store (Some [0, 2]) [AddRule 1]))
     ''[k]'' = [1] \<and>
   dirty (run unrestricted example_store (Some [0, 2]) [AddRule 1]) \<and>
   restrictedDomains (store (run unrestricted example_store (Some [0, 2]) [AddRule 1]) 2) = {} \<and>
   restrictedDomains (store (snd (getRulesForDomain unrestricted ''a.com''
      (run unrestricted example_store (Some [0, 2]) [AddRule 1]))) 2) = {''a.com''} \<and>
   fst (getRulesForDomain unrestricted ''a.com''
      (run unrestricted example_store (Some [0, 2]) [AddRule 1])) = None \<and>
   snd (getRulesForDomain unrestricted ''b.com'' (snd (getRulesForDomain unrestricted ''a.com''
      (run unrestricted example_store (Some [0, 2]) [AddRule 1])))) =
     snd (getRulesForDomain unrestricted ''a.com''
      (run unrestricted example_store (Some [0, 2]) [AddRule 1])) \<and>
   count_list (perform_calls (run unrestricted example_store (Some [0, 2]) [AddRule 1])
      (Query ''a.com'')) (2, 1) = 1 \<and>
   perform_calls (snd (getRulesForDomain unrestricted ''a.com''
      (run unrestricted example_store (Some [0, 2]) [AddRule 1]))) (Query ''b.com'') = []"
proof -
  let ?s = "run unrestricted example_store (Some [0, 2]) [AddRule 1]"
  have cr: "contentRules ?s = [0, 2]" by (simp add: run_defs)
  have ex: "exceptionsFor (exceptionRulesMap ?s) ''[k]'' = [1]" by (simp add: example_defs)
  have di: "dirty ?s" by (simp add: run_defs)
  have st: "store ?s = example_store" by (simp add: run_defs)
  have ed: "exceptionDomains ?s 2 = {''a.com''}" by (simp add: example_defs)
  have res: "fst (getRulesForDomain unrestricted ''a.com'' ?s) = None" by (simp add: run_defs)
  note l = lazy_rebuild [where isP = unrestricted and d = "''a.com''" and h = example_store
      and rules = "Some [0, 2]" and calls = "[AddRule 1]" and d' = "''b.com''", OF refl refl]
  have "2 \<in> set (contentRules ?s)" unfolding cr by simp
  with l [THEN conjunct2, THEN conjunct2, THEN conjunct1]
  have "restrictedDomains (store (snd (getRulesForDomain unrestricted ''a.com'' ?s)) 2) =
      restrictedDomains (store ?s 2) \<union> exceptionDomains ?s 2"
    by (rule bspec)
  then have r2: "restrictedDomains (store (snd (getRulesForDomain unrestricted ''a.com'' ?s)) 2) =
      {''a.com''}"
    unfolding ed st by (simp add: example_store_def regular_rule_def)
  have idem: "snd (getRulesForDomain unrestricted ''b.com''
      (snd (getRulesForDomain unrestricted ''a.com'' ?s))) =
      snd (getRulesForDomain unrestricted ''a.com'' ?s)"
    by (rule l [THEN conjunct2, THEN conjunct2, THEN conjunct2, THEN conjunct2, THEN conjunct1])
  have r0: "restrictedDomains (store ?s 2) = {}"
    unfolding st by (simp add: example_store_def regular_rule_def)
  have ef: "elementsFilter (store ?s 2) = ''[k]''"
    unfolding st by (simp add: example_store_def regular_rule_def)
  have "count_list (perform_calls ?s (Query ''a.com'')) (2, 1) =
      (if dirty ?s
       then count_list (contentRules ?s) 2 *
            count_list (exceptionsFor (exceptionRulesMap ?s) (elementsFilter (store ?s 2))) 1
       else 0)"
    using l [THEN conjunct2, THEN conjunct2, THEN conjunct2, THEN conjunct2, THEN conjunct2,
        THEN conjunct2, THEN conjunct2, THEN conjunct2, THEN conjunct1]
    by blast
  then have n1: "count_list (perform_calls ?s (Query ''a.com'')) (2, 1) = 1"
    unfolding ef ex cr using di by simp
  have n2: "perform_calls (snd (getRulesForDomain unrestricted ''a.com'' ?s)) (Query ''b.com'') = []"
    by (rule l [THEN conjunct2, THEN conjunct2, THEN conjunct2, THEN conjunct2, THEN conjunct2,
        THEN conjunct2, THEN conjunct2, THEN conjunct2, THEN conjunct2, THEN conjunct1])
  from cr ex di r0 r2 res idem n1 n2 show ?thesis by (simp only: simp_thms)
qed

section \<open>Removing a rule that is not in the rule set\<close>

text \<open>
  C4, as stated, fails for an exception rule: rule 1 was never added, yet removing it
  takes \<^verbatim>\<open>a.com\<close> from the restricted domains of regular rule 0, which has its filter.
\<close>

theorem removeRule_absent_counterexample:
  "1 \<notin> set (contentRules (ContentFilter_new example_store (Some [0]))) \<and>
   map_mm (exceptionRulesMap (ContentFilter_new example_store (Some [0]))) = Map.empty \<and>
   restrictedDomains (store (ContentFilter_new example_store (Some [0])) 0) = {''a.com''} \<and>
   restrictedDomains (store (removeRule (ContentFilter_new example_store (Some [0])) 1) 0) = {}"
  by (simp add: run_defs)

text \<open>
  C4, amended. In every state reached by the constructor and a sequence of calls,
  \<^verbatim>\<open>removeRule\<close> of a rule that is neither among \<^verbatim>\<open>contentRules\<close> nor in the index
  leaves \<^verbatim>\<open>contentRules\<close> and the index unchanged. It leaves every rule object unchanged
  when the rule is not an exception rule; when it is one, every regular rule with its
  \<^verbatim>\<open>elementsFilter\<close> loses the exception's permitted domains from its restricted
  domains, and no other restricted-domain set changes.
\<close>

theorem removeRule_absent:
  assumes "s = run isP h rules calls"
    and "r \<notin> set (contentRules s)"
    and "r \<notin> set (exceptionsFor (exceptionRulesMap s) (elementsFilter (store s r)))"
  shows "contentRules (removeRule s r) = contentRules s
       \<and> exceptionRulesMap (removeRule s r) = exceptionRulesMap s
       \<and> (\<not> whiteListRule (store s r) \<longrightarrow> store (removeRule s r) = store s)
       \<and> (\<forall>x. restrictedDomains (store (removeRule s r) x) =
            (if whiteListRule (store s r) \<and> x \<in> set (contentRules s) \<and>
                elementsFilter (store s x) = elementsFilter (store s r)
             then restrictedDomains (store s x) - permittedDomains (store s r)
             else restrictedDomains (store s x)))"
proof -
  have ok: "index_ok s" unfolding assms(1) by (rule run_index_ok)
  have ne: "map_mm (exceptionRulesMap s) (elementsFilter (store s r)) \<noteq> Some []"
    using index_okD(3) [OF ok] by blast
  have cr: "remove1 r (contentRules s) = contentRules s"
    using assms(2) by (rule remove1_idem)
  have mm: "remove_mm (exceptionRulesMap s) (elementsFilter (store s r)) r = exceptionRulesMap s"
    using assms(3) ne by (rule remove_mm_absent)
  show ?thesis
    by (simp add: removeRule_restricted) (simp add: removeRule_fields cr mm)
qed

theorem removeRule_absent_witness:
  "1 \<notin> set (contentRules (run unrestricted example_store (Some [0, 2]) [])) \<and>
   1 \<notin> set (exceptionsFor (exceptionRulesMap (run unrestricted example_store (Some [0, 2]) []))
            (elementsFilter (example_store 1))) \<and>
   4 \<notin> set (contentRules (run unrestricted example_store (Some [0, 2]) [])) \<and>
   \<not> whiteListRule (example_store 4) \<and>
   contentRules (removeRule (run unrestricted example_store (Some [0, 2]) []) 1) = [0, 2] \<and>
   store (removeRule (run unrestricted example_store (Some [0, 2]) []) 4) = example_store \<and>
   restrictedDomains (store (removeRule (run unrestricted example_store (Some [0, 2]) []) 1) 0)
     = {}"
proof -
  let ?s = "run unrestricted example_store (Some [0, 2]) []"
  have st: "store ?s = example_store" by (simp add: run_defs)
  have cr: "contentRules ?s = [0, 2]" by (simp add: run_defs)
  have h1: "1 \<notin> set (contentRules ?s)" "4 \<notin> set (contentRules ?s)" unfolding cr by simp_all
  have h2: "1 \<notin> set (exceptionsFor (exceptionRulesMap ?s) (elementsFilter (store ?s 1)))"
    "4 \<notin> set (exceptionsFor (exceptionRulesMap ?s) (elementsFilter (store ?s 4)))"
    by (simp_all add: example_defs)
  have f: "\<not> whiteListRule (example_store 4)" "whiteListRule (example_store 1)"
    "elementsFilter (example_store 0) = elementsFilter (example_store 1)"
    "restrictedDomains (example_store 0) - permittedDomains (example_store 1) = {}"
    by (simp_all add: example_store_def regular_rule_def exception_rule_def)
  note a1 = removeRule_absent [OF refl h1(1) h2(1)]
  note a4 = removeRule_absent [OF refl h1(2) h2(2)]
  have c1: "contentRules (removeRule ?s 1) = [0, 2]" using a1 cr by simp
  have c2: "store (removeRule ?s 4) = example_store" using a4 f(1) st by simp
  have "restrictedDomains (store (removeRule ?s 1) 0) =
     (if whiteListRule (store ?s 1) \<and> 0 \<in> set (contentRules ?s) \<and>
                elementsFilter (store ?s 0) = elementsFilter (store ?s 1)
      then restrictedDomains (store ?s 0) - permittedDomains (store ?s 1)
      else restrictedDomains (store ?s 0))"
    using a1 by blast
  then have c3: "restrictedDomains (store (removeRule ?s 1) 0) = {}"
    unfolding st cr using f by simp
  from h1 h2 f c1 c2 c3 show ?thesis unfolding st by simp
qed

section \<open>The gate of addRule\<close>

text \<open>
  C5, as stated, fails: the gate of \<^verbatim>\<open>addRule\<close> reads \<^verbatim>\<open>tagName\<close>, not the key the
  rules are grouped by (\<^verbatim>\<open>elementsFilter\<close>). Rule 3 has the filter \<^verbatim>\<open>[k]\<close> and no
  tag name and is dropped; rule 4 has an empty filter and a tag name and is accepted.
\<close>

theorem addRule_gate_counterexample:
  "elementsFilter (example_store 3) = ''[k]'' \<and>
   addRule (ContentFilter_new example_store None) 3 = ContentFilter_new example_store None \<and>
   elementsFilter (example_store 4) = [] \<and>
   contentRules (addRule (ContentFilter_new example_store None) 4) = [4] \<and>
   dirty (addRule (ContentFilter_new example_store None) 4)"
  by (simp add: run_defs)

text \<open>
  C5, amended. A rule whose \<^verbatim>\<open>tagName\<close> is absent or empty is ignored by \<^verbatim>\<open>addRule\<close>:
  the state, with its \<^verbatim>\<open>dirty\<close> flag, is unchanged, and nothing is raised. Every rule
  with a non-empty \<^verbatim>\<open>tagName\<close> is accepted, whatever its \<^verbatim>\<open>elementsFilter\<close>: an
  exception rule is appended under its filter in the index, any other rule is appended
  to \<^verbatim>\<open>contentRules\<close>, and \<^verbatim>\<open>dirty\<close> is set.
\<close>

theorem addRule_gate:
  "(\<not> truthy (tagName (store s r)) \<longrightarrow> addRule s r = s) \<and>
   (truthy (tagName (store s r)) \<longrightarrow>
      dirty (addRule s r) \<and> store (addRule s r) = store s \<and>
      (if whiteListRule (store s r)
       then contentRules (addRule s r) = contentRules s \<and>
            exceptionsFor (exceptionRulesMap (addRule s r)) (elementsFilter (store s r)) =
              exceptionsFor (exceptionRulesMap s) (elementsFilter (store s r)) @ [r]
       else contentRules (addRule s r) = contentRules s @ [r] \<and>
            exceptionRulesMap (addRule s r) = exceptionRulesMap s))"
  by (simp add: addRule_def exceptionsFor_def [of "put _ _ _"] get_def put_lookup)

theorem addRule_gate_witness:
  "\<not> truthy (tagName (example_store 3)) \<and>
   addRule (ContentFilter_new example_store None) 3 = ContentFilter_new example_store None \<and>
   truthy (tagName (example_store 1)) \<and> truthy (tagName (example_store 4)) \<and>
   exceptionsFor (exceptionRulesMap (addRule (ContentFilter_new example_store None) 1)) ''[k]''
     = [1] \<and>
   contentRules (addRule (ContentFilter_new example_store None) 4) = [4]"
proof -
  let ?s = "ContentFilter_new example_store None"
  have st: "store ?s = example_store" by (simp add: run_defs)
  have e: "exceptionsFor (exceptionRulesMap ?s) ''[k]'' = []" "contentRules ?s = []"
    by (simp_all add: run_defs exceptionsFor_def)
  from addRule_gate [of ?s 3] addRule_gate [of ?s 1] addRule_gate [of ?s 4] e show ?thesis
    unfolding st by (simp add: example_store_def regular_rule_def exception_rule_def)
qed

section \<open>An exception rule added twice and removed once\<close>

text \<open>
  C7. In every reachable state, after adding the same (accepted) exception rule twice
  and removing it once, the sequence under its key is the earlier one with the rule
  appended twice and its first occurrence removed, so the rule occurs once more than
  before; after the next query every regular rule with the exception's
  \<^verbatim>\<open>elementsFilter\<close> has the exception's permitted domains among its restricted ones.
\<close>

theorem duplicate_exception:
  assumes "whiteListRule (h e)" and "truthy (tagName (h e))"
    and "s = run isP h rules calls"
    and "s' = removeRule (addRule (addRule s e) e) e"
    and "q = snd (getRulesForDomain isP d s')"
  shows "exceptionsFor (exceptionRulesMap s') (elementsFilter (h e)) =
           remove1 e (exceptionsFor (exceptionRulesMap s) (elementsFilter (h e)) @ [e, e])
       \<and> count_list (exceptionsFor (exceptionRulesMap s') (elementsFilter (h e))) e =
           count_list (exceptionsFor (exceptionRulesMap s) (elementsFilter (h e))) e + 1
       \<and> e \<in> set (exceptionsFor (exceptionRulesMap q) (elementsFilter (h e)))
       \<and> contentRules q = contentRules s
       \<and> (\<forall>r \<in> set (contentRules q). elementsFilter (h r) = elementsFilter (h e) \<longrightarrow>
            permittedDomains (h e) \<subseteq> restrictedDomains (store q r))"
proof -
  let ?k = "elementsFilter (h e)"
  let ?old = "exceptionsFor (exceptionRulesMap s) ?k"
  have s': "s' = run isP h rules (calls @ [AddRule e, AddRule e, RemoveRule e])"
    unfolding assms(3,4) by (simp add: run_def)
  have ok: "index_ok s" unfolding assms(3) by (rule run_index_ok)
  have ok': "index_ok s'" unfolding s' by (rule run_index_ok)
  have st: "\<And>x. static (store s x) = static (h x)" unfolding assms(3) by (rule run_static)
  have st': "\<And>x. static (store s' x) = static (h x)" unfolding s' by (rule run_static)
  have f: "\<And>y. elementsFilter (store s y) = elementsFilter (h y)"
    "\<And>y. whiteListRule (store s y) = whiteListRule (h y)"
    "\<And>y. tagName (store s y) = tagName (h y)"
    using static_eqD [OF st] by simp_all
  have f': "\<And>y. elementsFilter (store s' y) = elementsFilter (h y)"
    "\<And>y. permittedDomains (store s' y) = permittedDomains (h y)"
    using static_eqD [OF st'] by simp_all
  let ?s1 = "addRule s e"
  have a1: "?s1 = s\<lparr>exceptionRulesMap := put (exceptionRulesMap s) ?k e, dirty := True\<rparr>"
    using addRule_exception [of s e] assms(1,2) by (simp add: f)
  have a2: "addRule ?s1 e =
      ?s1\<lparr>exceptionRulesMap := put (exceptionRulesMap ?s1) ?k e, dirty := True\<rparr>"
    using addRule_exception [of ?s1 e] assms(1,2) by (simp add: f addRule_store)
  have idx: "exceptionsFor (exceptionRulesMap s') ?k = remove1 e (?old @ [e, e])"
    unfolding assms(4)
    by (simp add: removeRule_fields exceptionsFor_remove_mm addRule_store f)
       (simp add: a2 exceptionsFor_put, simp add: a1 exceptionsFor_put)
  have cnt: "count_list (exceptionsFor (exceptionRulesMap s') ?k) e = count_list ?old e + 1"
    unfolding idx by (rule count_list_remove1_snoc2)
  then have mem: "e \<in> set (exceptionsFor (exceptionRulesMap s') ?k)"
    using count_list_pos [of "exceptionsFor (exceptionRulesMap s') ?k" e] by simp
  have q: "q = rebuild s'" unfolding assms(5) by (rule getRulesForDomain_state)
  have e_not_regular: "e \<notin> set (contentRules s)"
    using index_okD(5) [OF ok, of e] assms(1) by (auto simp add: f)
  have cr: "contentRules s' = contentRules s"
    unfolding assms(4) using e_not_regular
    by (simp add: removeRule_fields a2, simp add: a1 remove1_idem)
  have di: "dirty s'" unfolding assms(4) by (simp add: removeRule_fields)
  have sub: "permittedDomains (h e) \<subseteq> restrictedDomains (store q r)"
    if "r \<in> set (contentRules q)" and "elementsFilter (h r) = elementsFilter (h e)" for r
  proof -
    from that(1) have m: "r \<in> set (contentRules s')" by (simp add: q rebuild_frame)
    have "permittedDomains (h e) \<subseteq> exceptionDomains s' r"
      unfolding exceptionDomains_ok [OF ok'] f' that(2) using mem by blast
    also have "\<dots> \<subseteq> restrictedDomains (store q r)"
      using m di by (simp add: q rebuild_restricted_ok [OF ok'])
    finally show ?thesis .
  qed
  from idx cnt mem cr sub show ?thesis by (simp add: q rebuild_frame)
qed

theorem duplicate_exception_witness:
  "whiteListRule (example_store 1) \<and> truthy (tagName (example_store 1)) \<and>
   exceptionsFor (exceptionRulesMap (removeRule (addRule (addRule
      (run unrestricted example_store (Some [2]) []) 1) 1) 1)) ''[k]'' = [1] \<and>
   contentRules (snd (getRulesForDomain unrestricted ''b.com'' (removeRule (addRule (addRule
      (run unrestricted example_store (Some [2]) []) 1) 1) 1))) = [2] \<and>
   elementsFilter (example_store 2) = elementsFilter (example_store 1) \<and>
   {''a.com''} \<subseteq> restrictedDomains (store (snd (getRulesForDomain unrestricted ''b.com''
      (removeRule (addRule (addRule
        (run unrestricted example_store (Some [2]) []) 1) 1) 1))) 2)"
proof -
  let ?s = "run unrestricted example_store (Some [2]) []"
  let ?s' = "removeRule (addRule (addRule ?s 1) 1) 1"
  let ?q = "snd (getRulesForDomain unrestricted ''b.com'' ?s')"
  have f: "whiteListRule (example_store 1)" "truthy (tagName (example_store 1))"
    "elementsFilter (example_store 2) = elementsFilter (example_store 1)"
    "elementsFilter (example_store 1) = ''[k]''" "permittedDomains (example_store 1) = {''a.com''}"
    by (simp_all add: example_store_def regular_rule_def exception_rule_def)
  have old: "exceptionsFor (exceptionRulesMap ?s) ''[k]'' = []" by (simp add: example_defs)
  have cr: "contentRules ?s = [2]" by (simp add: run_defs)
  note w = duplicate_exception [where isP = unrestricted and h = example_store and e = 1
      and rules = "Some [2]" and calls = "[]" and d = "''b.com''", OF f(1) f(2) refl refl refl]
  have c1: "exceptionsFor (exceptionRulesMap ?s') ''[k]'' = [1]"
    using w [THEN conjunct1] unfolding f(4) old by simp
  have c2: "contentRules ?q = [2]"
    using w [THEN conjunct2, THEN conjunct2, THEN conjunct2, THEN conjunct1] cr by simp
  have "\<forall>r \<in> set (contentRules ?q).
      elementsFilter (example_store r) = elementsFilter (example_store 1) \<longrightarrow>
      permittedDomains (example_store 1) \<subseteq> restrictedDomains (store ?q r)"
    by (rule w [THEN conjunct2, THEN conjunct2, THEN conjunct2, THEN conjunct2])
  then have c3: "{''a.com''} \<subseteq> restrictedDomains (store ?q 2)"
    unfolding c2 using f(3) f(5) by simp
  from f c1 c2 c3 show ?thesis by blast
qed

section \<open>Regular rules and exception rules are kept apart\<close>

text \<open>
  C8. After the constructor and any sequence of calls, every rule of \<^verbatim>\<open>contentRules\<close> is
  not an exception rule and is not in the index; every rule the index holds is an
  exception rule, is held under its own \<^verbatim>\<open>elementsFilter\<close> and is not among
  \<^verbatim>\<open>contentRules\<close>; and a rule is in the rule set (accepted by \<^verbatim>\<open>addRule\<close> more often
  than removed since) exactly when it is in one of the two, with as many occurrences.
\<close>

theorem partition:
  assumes "s = run isP h rules calls"
  shows "(\<forall>r \<in> set (contentRules s).
            \<not> whiteListRule (h r) \<and>
            r \<notin> set (exceptionsFor (exceptionRulesMap s) (elementsFilter (h r))))
       \<and> (\<forall>k. \<forall>r \<in> set (exceptionsFor (exceptionRulesMap s) k).
            whiteListRule (h r) \<and> k = elementsFilter (h r) \<and> r \<notin> set (contentRules s))
       \<and> (\<forall>r. count (inRuleSet h rules calls) r =
            count_list (contentRules s) r +
            count_list (exceptionsFor (exceptionRulesMap s) (elementsFilter (h r))) r)
       \<and> (\<forall>r. r \<in># inRuleSet h rules calls \<longleftrightarrow>
            (r \<in> set (contentRules s)) \<noteq>
            (r \<in> set (exceptionsFor (exceptionRulesMap s) (elementsFilter (h r)))))"
proof -
  have ok: "index_ok s" unfolding assms by (rule run_index_ok)
  note d = index_okD [OF ok]
  have st: "\<And>x. static (store s x) = static (h x)" unfolding assms by (rule run_static)
  have f: "\<And>y. elementsFilter (store s y) = elementsFilter (h y)"
    "\<And>y. whiteListRule (store s y) = whiteListRule (h y)"
    using static_eqD [OF st] by simp_all
  have a: "\<not> whiteListRule (h r) \<and>
           r \<notin> set (exceptionsFor (exceptionRulesMap s) (elementsFilter (h r)))"
    if "r \<in> set (contentRules s)" for r
    using d(5) [OF that] d(4) [of r "elementsFilter (h r)"] by (auto simp add: f)
  have b: "whiteListRule (h r) \<and> k = elementsFilter (h r) \<and> r \<notin> set (contentRules s)"
    if "r \<in> set (exceptionsFor (exceptionRulesMap s) k)" for r k
    using d(4) [OF that] d(5) [of r] by (auto simp add: f)
  have c: "count (inRuleSet h rules calls) r =
            count_list (contentRules s) r +
            count_list (exceptionsFor (exceptionRulesMap s) (elementsFilter (h r))) r" for r
    unfolding assms by (rule run_tracked)
  have e: "r \<in># inRuleSet h rules calls \<longleftrightarrow>
            (r \<in> set (contentRules s)) \<noteq>
            (r \<in> set (exceptionsFor (exceptionRulesMap s) (elementsFilter (h r))))" for r
  proof -
    have "r \<in># inRuleSet h rules calls \<longleftrightarrow>
          r \<in> set (contentRules s) \<or>
          r \<in> set (exceptionsFor (exceptionRulesMap s) (elementsFilter (h r)))"
      using c [of r] by (simp add: count_list_pos flip: count_greater_zero_iff)
    then show ?thesis using a [of r] by blast
  qed
  from a b c e show ?thesis by blast
qed

theorem partition_witness:
  "contentRules (run unrestricted example_store (Some [0, 1])
      [AddRule 3, AddRule 1, RemoveRule 1, RemoveRule 2, Query ''a.com'']) = [0] \<and>
   exceptionsFor (exceptionRulesMap (run unrestricted example_store (Some [0, 1])
      [AddRule 3, AddRule 1, RemoveRule 1, RemoveRule 2, Query ''a.com''])) ''[k]'' = [1] \<and>
   \<not> whiteListRule (example_store 0) \<and> whiteListRule (example_store 1) \<and>
   elementsFilter (example_store 1) = ''[k]'' \<and>
   count (inRuleSet example_store (Some [0, 1])
      [AddRule 3, AddRule 1, RemoveRule 1, RemoveRule 2, Query ''a.com'']) 1 = 1 \<and>
   0 \<in># inRuleSet example_store (Some [0, 1])
      [AddRule 3, AddRule 1, RemoveRule 1, RemoveRule 2, Query ''a.com''] \<and>
   3 \<notin># inRuleSet example_store (Some [0, 1])
      [AddRule 3, AddRule 1, RemoveRule 1, RemoveRule 2, Query ''a.com'']"
proof -
  let ?calls = "[AddRule 3, AddRule 1, RemoveRule 1, RemoveRule 2, Query ''a.com'']"
  let ?s = "run unrestricted example_store (Some [0, 1]) ?calls"
  have cr: "contentRules ?s = [0]" by (simp add: run_defs)
  have ex: "exceptionsFor (exceptionRulesMap ?s) ''[k]'' = [1]" by (simp add: example_defs)
  have ex3: "exceptionsFor (exceptionRulesMap ?s) (elementsFilter (example_store 3)) = [1]"
    by (simp add: example_defs)
  have f: "\<not> whiteListRule (example_store 0)" "whiteListRule (example_store 1)"
    "elementsFilter (example_store 1) = ''[k]''" "elementsFilter (example_store 0) = ''[k]''"
    by (simp_all add: example_store_def regular_rule_def exception_rule_def)
  note p = partition [where isP = unrestricted and h = example_store
      and rules = "Some [0, 1]" and calls = ?calls, OF refl]
  from p have c1: "count (inRuleSet example_store (Some [0, 1]) ?calls) 1 = 1"
    using cr ex f by simp
  from p have c0: "0 \<in># inRuleSet example_store (Some [0, 1]) ?calls"
    using cr ex f by simp
  from p have c3: "3 \<notin># inRuleSet example_store (Some [0, 1]) ?calls"
    using cr ex3 by simp
  from cr ex f c1 c0 c3 show ?thesis by simp
qed

section \<open>The matched elements\<close>

text \<open>
  C9. \<^verbatim>\<open>getMatchedElements\<close> returns \<^verbatim>\<open>null\<close> when \<^verbatim>\<open>getRulesForDomain\<close> does, or when
  no applicable rule finds an element; otherwise the concatenation of the non-empty
  per-rule results, in the order of the applicable rules and, within a rule, in the
  order of the traversal. It leaves the state \<^verbatim>\<open>getRulesForDomain\<close> leaves.
\<close>

theorem getMatchedElements_result:
  "getMatchedElements tr isP doc d s =
     (case getRulesForDomain isP d s of
        (None, s') \<Rightarrow> (None, s')
      | (Some rs, s') \<Rightarrow>
          (let es = concat (filter (\<lambda>els. els \<noteq> [])
                      (map (\<lambda>r. case tr (store s' r) doc of None \<Rightarrow> [] | Some els \<Rightarrow> els) rs))
           in if es = [] then None else Some es, s'))"
proof (cases "getRulesForDomain isP d s")
  case (Pair res s')
  show ?thesis
  proof (cases res)
    case None
    with Pair show ?thesis by (simp add: getMatchedElements_unfold)
  next
    case (Some rs)
    have "getMatchedElementsForRules tr (store s') doc (Some rs) =
        (if concat (map (\<lambda>r. case tr (store s' r) doc of None \<Rightarrow> [] | Some els \<Rightarrow> els) rs) = []
         then None
         else Some (concat (map (\<lambda>r. case tr (store s' r) doc of None \<Rightarrow> [] | Some els \<Rightarrow> els) rs)))"
      by (cases rs) (simp_all add: getMatchedElementsForRules_def
          getMatchedElementsForRules_loop_concat del: getMatchedElementsForRules_loop.simps)
    with Pair Some show ?thesis
      by (simp add: getMatchedElements_unfold concat_filter_nonempty Let_def)
  qed
qed

theorem getMatchedElements_result_witness:
  "fst (getMatchedElements lookup_elements unrestricted example_doc ''x.com''
          (ContentFilter_new example_store (Some [0, 4]))) = Some [7, 8, 9]
   \<and> fst (getMatchedElements lookup_elements unrestricted example_doc ''a.com''
          (ContentFilter_new example_store (Some [0]))) = None"
  using getMatchedElements_result [of lookup_elements unrestricted example_doc "''x.com''"
          "ContentFilter_new example_store (Some [0, 4])"]
    getMatchedElements_result [of lookup_elements unrestricted example_doc "''a.com''"
          "ContentFilter_new example_store (Some [0])"]
  by (simp add: run_defs lookup_elements_def example_doc_def)

section \<open>What a query may change\<close>

text \<open>
  C10. A query (\<^verbatim>\<open>getRulesForDomain\<close> or \<^verbatim>\<open>getMatchedElements\<close>) changes neither
  \<^verbatim>\<open>contentRules\<close> nor the exception index. Of the rule objects it changes at most the
  restricted domains, and only of rules that are among \<^verbatim>\<open>contentRules\<close>; every other
  rule object is left as it was.
\<close>

theorem query_frame:
  "contentRules (snd (getRulesForDomain isP d s)) = contentRules s \<and>
   exceptionRulesMap (snd (getRulesForDomain isP d s)) = exceptionRulesMap s \<and>
   contentRules (snd (getMatchedElements tr isP doc d s)) = contentRules s \<and>
   exceptionRulesMap (snd (getMatchedElements tr isP doc d s)) = exceptionRulesMap s \<and>
   snd (getMatchedElements tr isP doc d s) = snd (getRulesForDomain isP d s) \<and>
   (\<forall>x. tagName (store (snd (getRulesForDomain isP d s)) x) = tagName (store s x) \<and>
        elementsFilter (store (snd (getRulesForDomain isP d s)) x) = elementsFilter (store s x) \<and>
        whiteListRule (store (snd (getRulesForDomain isP d s)) x) = whiteListRule (store s x) \<and>
        permittedDomains (store (snd (getRulesForDomain isP d s)) x) =
          permittedDomains (store s x) \<and>
        (x \<notin> set (contentRules s) \<longrightarrow>
           store (snd (getRulesForDomain isP d s)) x = store s x))"
  unfolding getRulesForDomain_state getMatchedElements_state
  using static_eqD [OF rebuild_static [of s]]
  by (simp add: rebuild_frame rebuild_other)

theorem query_frame_witness:
  "contentRules (snd (getRulesForDomain unrestricted ''a.com''
      (ContentFilter_new example_store (Some [2, 1])))) = [2] \<and>
   get (exceptionRulesMap (snd (getRulesForDomain unrestricted ''a.com''
      (ContentFilter_new example_store (Some [2, 1]))))) ''[k]'' = Some [1] \<and>
   1 \<notin> set (contentRules (ContentFilter_new example_store (Some [2, 1]))) \<and>
   store (snd (getRulesForDomain unrestricted ''a.com''
      (ContentFilter_new example_store (Some [2, 1])))) 1 = example_store 1 \<and>
   restrictedDomains (store (snd (getRulesForDomain unrestricted ''a.com''
      (ContentFilter_new example_store (Some [2, 1])))) 2) = {''a.com''}"
  using query_frame [of unrestricted "''a.com''" "ContentFilter_new example_store (Some [2, 1])"]
  by (simp add: run_defs)

section \<open>The grouping index after \<^verbatim>\<open>clear\<close>\<close>

text \<open>
  C6. After \<^verbatim>\<open>clear()\<close> the index should hold no keys, have a count of zero and answer
  \<^verbatim>\<open>isEmpty()\<close> with true. The code replaces the map and leaves \<^verbatim>\<open>size\<close> as it was:
  after one \<^verbatim>\<open>put\<close> and a \<^verbatim>\<open>clear\<close>, no key is left, yet the count is still 1 and
  \<^verbatim>\<open>isEmpty()\<close> answers false.
\<close>

theorem clear_keeps_size:
  "map_mm (clear (put MultiMap_new ''k'' 0)) = Map.empty \<and>
   size_mm (clear (put MultiMap_new ''k'' 0)) = 1 \<and>
   isEmpty (clear (put MultiMap_new ''k'' 0)) = False"
  by (simp add: clear_def put_def MultiMap_new_def isEmpty_def)

end
